theory Spec2Isabelle
  imports Main "HOL-Library.Word" "HOL-Library.Signed_Division"
begin

unbundle bit_operations_syntax

section \<open>JavaScript values used by the two extensions\<close>

text \<open>
  A JavaScript number of the serializer holds an integer or NaN.  Integers are modelled
  as \<open>int\<close>: the host keeps exponents within \<open>9e15\<close> and limbs below \<open>1e7\<close>, where
  double arithmetic is exact.  The bitwise operators first convert their operands to a
  signed 32-bit integer (\<open>ToInt32\<close>); \<open>/\<close> followed by \<open>| 0\<close> truncates towards zero and
  \<open>%\<close> takes the sign of the dividend.
\<close>

datatype jsnum = NaN | Num int

definition js_int32 :: "int \<Rightarrow> int" where
  "js_int32 x = signed_take_bit 31 x"

definition js_or :: "int \<Rightarrow> int \<Rightarrow> int" where
  "js_or a b = js_int32 a OR js_int32 b"

definition js_and :: "int \<Rightarrow> int \<Rightarrow> int" where
  "js_and a b = js_int32 a AND js_int32 b"

fun js_lt :: "jsnum \<Rightarrow> int \<Rightarrow> bool" where
  "js_lt NaN n = False"
| "js_lt (Num x) n = (x < n)"

fun js_gt :: "jsnum \<Rightarrow> int \<Rightarrow> bool" where
  "js_gt NaN n = False"
| "js_gt (Num x) n = (x > n)"

fun js_add :: "jsnum \<Rightarrow> jsnum \<Rightarrow> jsnum" where
  "js_add (Num x) (Num y) = Num (x + y)"
| "js_add _ _ = NaN"

fun js_mul :: "jsnum \<Rightarrow> jsnum \<Rightarrow> jsnum" where
  "js_mul (Num x) (Num y) = Num (x * y)"
| "js_mul _ _ = NaN"

fun js_neg :: "jsnum \<Rightarrow> jsnum" where
  "js_neg (Num x) = Num (- x)"
| "js_neg NaN = NaN"

text \<open>
  A JavaScript string is its sequence of UTF-16 code units; \<open>js\<close> turns an ASCII
  literal into one.
\<close>

type_synonym jsstring = "nat list"

definition js :: "string \<Rightarrow> jsstring" where
  "js str = map of_char str"

text \<open>What a call throws; \<open>DecimalError\<close> is the error of the host's constructor.\<close>

datatype js_error = Error jsstring | TypeError jsstring | SyntaxError jsstring | DecimalError

section \<open>The serializer (serialize/index.js)\<close>

subsection \<open>The decimal view and the constants\<close>

text \<open>
  The three fields of a decimal.js value the serializer reads and writes: the limbs \<open>d\<close>
  (\<open>null\<close> for NaN and the infinities), the exponent \<open>e\<close> and the sign \<open>s\<close>.
\<close>

record decimal =
  d :: "int list option"
  e :: jsnum
  s :: jsnum

text \<open>The two bounds of the host class that \<open>fromArrayBuffer\<close> reads.\<close>

record host =
  maxE :: int
  minE :: int

abbreviation (input) BASE :: int where "BASE \<equiv> 10000000"
abbreviation (input) BYTES_MASK :: int where "BYTES_MASK \<equiv> 255"
abbreviation (input) SIX_LSB_MASK :: int where "SIX_LSB_MASK \<equiv> 63"
abbreviation (input) NEG_SIGN_BIT :: int where "NEG_SIGN_BIT \<equiv> 128"
abbreviation (input) NEG_EXPONENT_SIGN_BIT :: int where "NEG_EXPONENT_SIGN_BIT \<equiv> 64"
abbreviation (input) SMALL_INTEGER_BIT :: int where "SMALL_INTEGER_BIT \<equiv> NEG_EXPONENT_SIGN_BIT"
abbreviation (input) ALL_NINES :: int where "ALL_NINES \<equiv> BASE - 1"
abbreviation (input) ALL_ZEROS :: int where "ALL_ZEROS \<equiv> 0"
abbreviation (input) NINES_SIGNIFIER :: int where "NINES_SIGNIFIER \<equiv> BASE + 1"
abbreviation (input) ZEROS_SIGNIFIER :: int where "ZEROS_SIGNIFIER \<equiv> BASE"
abbreviation (input) INFINITY_BYTE :: int where "INFINITY_BYTE \<equiv> 127"
abbreviation (input) NEG_INFINITY_BYTE :: int where "NEG_INFINITY_BYTE \<equiv> 255"
abbreviation (input) NAN_BYTE :: int where "NAN_BYTE \<equiv> 64"
abbreviation (input) RADIX :: int where "RADIX \<equiv> BASE + 2"
abbreviation (input) EXPONENT_OFFSET :: int where "EXPONENT_OFFSET \<equiv> 7"
abbreviation (input) MAX_SMALL_EXPONENT :: int where "MAX_SMALL_EXPONENT \<equiv> 30"
abbreviation (input) MAX_SMALL_INTEGER :: int where "MAX_SMALL_INTEGER \<equiv> 50"
abbreviation (input) MAX_SMALLER_INTEGER :: int where "MAX_SMALLER_INTEGER \<equiv> 25"
abbreviation (input) SMALL_INTEGER_OFFSET :: int where "SMALL_INTEGER_OFFSET \<equiv> - 25 + 37"
abbreviation (input) SMALLER_INTEGER_OFFSET :: int where "SMALLER_INTEGER_OFFSET \<equiv> 38"

subsection \<open>convert: one step of the base conversion\<close>

text \<open>
  The second loop of \<open>convert\<close>: from index \<open>i\<close> upwards, an element above
  \<open>resBase - 1\<close> hands its quotient to the next element (created as 0 where the array
  ends) and keeps its remainder.  Both call sites pass a base of at least 2 (\<open>0x100\<close> and
  \<open>RADIX\<close>); the recursion is guarded by that, since the loop of the source would
  not end for a base of 1.
\<close>

function carry_loop :: "int \<Rightarrow> nat \<Rightarrow> int list \<Rightarrow> int list" where
  "carry_loop resBase i res =
     (if 2 \<le> resBase \<and> i < length res then
        (if res ! i > resBase - 1 then
           let res1 = (if i + 1 < length res then res else res @ [0]);
               res2 = res1[i + 1 := res1 ! (i + 1) + js_int32 (res1 ! i sdiv resBase)];
               res3 = res2[i := res2 ! i smod resBase]
           in carry_loop resBase (i + 1) res3
         else carry_loop resBase (i + 1) res)
      else res)"
  by pat_completeness auto

lemma js_int32_le_self: "0 \<le> x \<Longrightarrow> js_int32 x \<le> x"
  by (simp add: js_int32_def signed_take_bit_int_less_eq_self_iff)

lemma sdiv_nonneg_eq_div: "0 \<le> x \<Longrightarrow> 0 \<le> b \<Longrightarrow> x sdiv b = x div (b::int)"
  by (cases "x = 0"; cases "b = 0") (simp_all add: signed_divide_int_def)

lemma smod_nonneg_eq_mod: "0 \<le> x \<Longrightarrow> 0 \<le> b \<Longrightarrow> x smod b = x mod (b::int)"
  by (cases "x = 0"; cases "b = 0") (simp_all add: signed_modulo_int_def)

lemma carry_quotient_le:
  assumes "2 \<le> b" "b - 1 < x"
  shows "js_int32 (x sdiv b) \<le> x div 2" and "0 < x"
proof -
  from assms show x0: "0 < x" by simp
  have "x sdiv b = x div b" using assms x0 by (simp add: sdiv_nonneg_eq_div)
  moreover have "0 \<le> x div b" using assms x0 by (simp add: pos_imp_zdiv_nonneg_iff)
  moreover have "x div b \<le> x div 2"
    using assms x0 by (intro zdiv_mono2) simp_all
  ultimately show "js_int32 (x sdiv b) \<le> x div 2"
    using js_int32_le_self [of "x div b"] by simp
qed

termination carry_loop
proof (relation "measure (\<lambda>(resBase, i, res). sum_list (map (\<lambda>x. nat x + 1) (drop i res)))",
    goal_cases)
  case 1
  show ?case by simp
next
  case (2 resBase i res res1 res2 res3)
  from 2 have b: "2 \<le> resBase" and i: "i < length res" and big: "resBase - 1 < res ! i"
    by simp_all
  note q = carry_quotient_le [OF b big]
  show ?case
  proof (cases "i + 1 < length res")
    case True
    with 2 have r3: "res3 = res[i + 1 := res ! (i + 1) + js_int32 (res ! i sdiv resBase),
        i := res ! i smod resBase]"
      by simp
    have dr: "drop i res = res ! i # res ! (i + 1) # drop (i + 2) res"
      using True i by (simp add: Cons_nth_drop_Suc)
    have d3: "drop (i + 1) res3
        = (res ! (i + 1) + js_int32 (res ! i sdiv resBase)) # drop (i + 2) res"
      using True i unfolding r3
      by (simp add: drop_update_cancel Cons_nth_drop_Suc [symmetric])
    show ?thesis using q dr d3 by simp
  next
    case False
    with i have len: "length res = i + 1" by simp
    with 2 False have r3: "res3 = (res @ [0])[i + 1 := js_int32 (res ! i sdiv resBase),
        i := res ! i smod resBase]"
      by (simp add: nth_append)
    have dr: "drop i res = [res ! i]"
      using len by (metis Cons_nth_drop_Suc Suc_eq_plus1 drop_all i le_refl)
    have d3: "drop (i + 1) res3 = [js_int32 (res ! i sdiv resBase)]"
      unfolding r3 using len by (simp add: list_update_append)
    show ?thesis using q dr d3 by simp
  qed
next
  case (3 resBase i res)
  then have "drop i res = res ! i # drop (i + 1) res"
    by (simp add: Cons_nth_drop_Suc)
  then show ?case by simp
qed


declare carry_loop.simps [simp del]

text \<open>
  \<open>convert(val, valBase, res, resBase, ri)\<close>: multiply the elements from \<open>ri\<close> to the end
  by \<open>valBase\<close>, add \<open>val\<close> at \<open>ri\<close>, then carry.  Both callers pass an index inside the
  array (\<open>fromArrayBuffer\<close> passes 0 on a non-empty array, \<open>toArrayBuffer\<close> the index of
  the 0 it has just pushed).
\<close>

definition convert :: "int \<Rightarrow> int \<Rightarrow> int list \<Rightarrow> int \<Rightarrow> nat \<Rightarrow> int list" where
  "convert val valBase res resBase ri =
     (let res1 = take ri res @ map (\<lambda>x. x * valBase) (drop ri res);
          res2 = res1[ri := res1 ! ri + val]
      in carry_loop resBase ri res2)"

subsection \<open>toArrayBuffer\<close>

text \<open>\<open>digits[k]\<close>, which is \<open>undefined\<close> past the end of the array.\<close>

definition digit_at :: "int list \<Rightarrow> nat \<Rightarrow> int option" where
  "digit_at digits k = (if k < length digits then Some (digits ! k) else None)"

text \<open>\<open>while (digits[i + repeatCount] === nextDigits) repeatCount += 1\<close>\<close>

function count_repeats :: "int list \<Rightarrow> nat \<Rightarrow> int \<Rightarrow> nat \<Rightarrow> nat" where
  "count_repeats digits i nextDigits repeatCount =
     (if digit_at digits (i + repeatCount) = Some nextDigits
      then count_repeats digits i nextDigits (repeatCount + 1)
      else repeatCount)"
  by pat_completeness auto
termination
  by (relation "measure (\<lambda>(digits, i, nextDigits, repeatCount). length digits - (i + repeatCount))")
    (auto simp: digit_at_def split: if_splits)

declare count_repeats.simps [simp del]

lemma count_repeats_ge: "repeatCount \<le> count_repeats digits i nextDigits repeatCount"
proof (induction digits i nextDigits repeatCount rule: count_repeats.induct)
  case (1 digits i nextDigits repeatCount)
  show ?case
  proof (cases "digit_at digits (i + repeatCount) = Some nextDigits")
    case True
    with 1 show ?thesis by (subst count_repeats.simps) simp
  next
    case False
    then show ?thesis by (subst count_repeats.simps) simp
  qed
qed

text \<open>
  The loop over the mantissa (lines 152 to 172): each limb, or each signifier followed by
  its repeat count, goes through \<open>convert\<close> into the bytes from \<open>startIndex\<close>.
\<close>

function mantissa_loop :: "int list \<Rightarrow> nat \<Rightarrow> int list \<Rightarrow> nat \<Rightarrow> int list" where
  "mantissa_loop digits i bytes startIndex =
     (if i < length digits then
        let nextDigits = digits ! i;
            zerosOrNinesRepeatMoreThanTwice =
              ((nextDigits = ALL_ZEROS \<or> nextDigits = ALL_NINES) \<and>
               digit_at digits (i + 1) = Some nextDigits \<and>
               digit_at digits (i + 2) = Some nextDigits)
        in if zerosOrNinesRepeatMoreThanTwice then
             let repeatCount = count_repeats digits i nextDigits 3;
                 signifier = (if nextDigits = ALL_ZEROS then ZEROS_SIGNIFIER else NINES_SIGNIFIER);
                 bytes1 = convert signifier RADIX bytes 256 startIndex
             in mantissa_loop digits (i + repeatCount)
                  (convert (int repeatCount) RADIX bytes1 256 startIndex) startIndex
           else mantissa_loop digits (i + 1) (convert nextDigits RADIX bytes 256 startIndex) startIndex
      else bytes)"
  by pat_completeness auto
termination
proof (relation "measure (\<lambda>(digits, i, bytes, startIndex). length digits - i)", goal_cases)
  case 1
  show ?case by simp
next
  case (2 digits i bytes startIndex nextDigits z repeatCount signifier bytes1)
  from 2(1) 2(5) count_repeats_ge [of 3 digits i nextDigits] show ?case
    by simp
next
  case (3 digits i bytes startIndex nextDigits z)
  from 3(1) show ?case by simp
qed

declare mantissa_loop.simps [simp del]

text \<open>
  \<open>while (exponent) { bytes.push(exponent & BYTES_MASK); exponent = Math.floor(exponent / 0x100) }\<close>
  on the exponent magnitude, which is above 30 where the loop is entered.
\<close>

function exponent_bytes :: "nat \<Rightarrow> int list" where
  "exponent_bytes exponent =
     (if exponent \<noteq> 0
      then js_and (int exponent) BYTES_MASK # exponent_bytes (exponent div 256)
      else [])"
  by pat_completeness auto
termination
  by (relation "measure id") auto

declare exponent_bytes.simps [simp del]

text \<open>
  The first byte and the exponent bytes of the general case (lines 116 to 147): the bytes
  so far and \<open>exponentByteCount\<close>.  A NaN exponent fails every comparison, passes
  \<open>exponent !== 0\<close> and is 0 under \<open>|=\<close>.
\<close>

fun exponent_header :: "int \<Rightarrow> jsnum \<Rightarrow> int list \<times> nat" where
  "exponent_header firstByte NaN = ([js_or firstByte 0], 0)"
| "exponent_header firstByte (Num ex) =
     (let firstByte1 = (if ex < 0 then js_or firstByte NEG_EXPONENT_SIGN_BIT else firstByte);
          exponent = (if ex < 0 then - ex else ex)
      in if exponent > MAX_SMALL_EXPONENT then
           (let exponentByteCount =
                  (if exponent < 0x100 then 1
                   else if exponent < 0x10000 then 2
                   else if exponent < 0x1000000 then 3
                   else if exponent < 0x100000000 then 4
                   else if exponent < 0x10000000000 then 5
                   else if exponent < 0x1000000000000 then 6
                   else 7)
            in (js_or firstByte1 (int exponentByteCount) # exponent_bytes (nat exponent),
                exponentByteCount))
         else ([if exponent \<noteq> 0 then js_or firstByte1 (exponent + EXPONENT_OFFSET) else firstByte1],
               0))"

definition isSmallInteger :: "int list \<Rightarrow> jsnum \<Rightarrow> bool" where
  "isSmallInteger digits exponent \<longleftrightarrow>
     length digits = 1 \<and> digits ! 0 \<le> MAX_SMALL_INTEGER \<and>
     exponent = Num (if digits ! 0 < 10 then 0 else 1)"

text \<open>The JavaScript array \<open>bytes\<close> that \<open>toArrayBuffer\<close> builds.\<close>

definition toArrayBuffer_bytes :: "decimal \<Rightarrow> int list" where
  "toArrayBuffer_bytes x =
     (case d x of
        None \<Rightarrow>
          [if s x = NaN then NAN_BYTE
           else if js_lt (s x) 0 then NEG_INFINITY_BYTE else INFINITY_BYTE]
      | Some digits \<Rightarrow>
          if isSmallInteger digits (e x) then
            (let firstDigits = digits ! 0;
                 firstByte =
                   (if firstDigits > MAX_SMALLER_INTEGER
                    then js_or (firstDigits + SMALL_INTEGER_OFFSET) SMALL_INTEGER_BIT
                    else js_or (firstDigits + SMALLER_INTEGER_OFFSET) 0)
             in [if js_lt (s x) 0 then js_or firstByte NEG_SIGN_BIT else firstByte])
          else
            (let (bytes, exponentByteCount) =
                   exponent_header (if js_lt (s x) 0 then NEG_SIGN_BIT else 0) (e x);
                 startIndex = exponentByteCount + 1
             in mantissa_loop digits 0 (bytes @ [0]) startIndex))"

text \<open>\<open>new Uint8Array(bytes).buffer\<close>: every element modulo 256.\<close>

definition toArrayBuffer :: "decimal \<Rightarrow> 8 word list" where
  "toArrayBuffer x = map word_of_int (toArrayBuffer_bytes x)"

subsection \<open>fromArrayBuffer\<close>

text \<open>\<open>bytes[k]\<close> of the \<open>Uint8Array\<close>; \<open>undefined\<close> past the end is NaN in arithmetic.\<close>

definition byte_at :: "8 word list \<Rightarrow> nat \<Rightarrow> jsnum" where
  "byte_at bytes k = (if k < length bytes then Num (uint (bytes ! k)) else NaN)"

text \<open>
  \<open>for (let i = 0; i < exponentByteCount; ) { const leftShift = 0x100 ** i;
  exponent += bytes[++i] * leftShift; }\<close>
  The count is at most 7, so the sum stays below \<open>2^56\<close>; it is exact in the source
  below \<open>2^53\<close>, which covers the exponents of the host, and above that the model
  keeps the integer that the source rounds to a double.
\<close>

function exponent_loop :: "8 word list \<Rightarrow> nat \<Rightarrow> nat \<Rightarrow> jsnum \<Rightarrow> jsnum" where
  "exponent_loop bytes exponentByteCount i exponent =
     (if i < exponentByteCount
      then exponent_loop bytes exponentByteCount (i + 1)
             (js_add exponent (js_mul (byte_at bytes (i + 1)) (Num (0x100 ^ i))))
      else exponent)"
  by pat_completeness auto
termination
  by (relation "measure (\<lambda>(bytes, exponentByteCount, i, exponent). exponentByteCount - i)") auto

declare exponent_loop.simps [simp del]

text \<open>
  \<open>for (let i = bytes.length, startIndex = 0; i > indexOfLastMantissaByte; )
  convert(bytes[--i], 0x100, digitsInReverse, RADIX, startIndex);\<close>
\<close>

function digits_loop :: "8 word list \<Rightarrow> nat \<Rightarrow> nat \<Rightarrow> int list \<Rightarrow> int list" where
  "digits_loop bytes indexOfLastMantissaByte i digitsInReverse =
     (if i > indexOfLastMantissaByte
      then digits_loop bytes indexOfLastMantissaByte (i - 1)
             (convert (uint (bytes ! (i - 1))) 0x100 digitsInReverse RADIX 0)
      else digitsInReverse)"
  by pat_completeness auto
termination
  by (relation "measure (\<lambda>(bytes, indexOfLastMantissaByte, i, digitsInReverse). i)") auto

declare digits_loop.simps [simp del]

text \<open>\<open>digitsInReverse[i]\<close> for an index that the loop below may take below 0.\<close>

definition js_index :: "int list \<Rightarrow> int \<Rightarrow> int option" where
  "js_index xs i = (if 0 \<le> i \<and> i < int (length xs) then Some (xs ! nat i) else None)"

text \<open>
  \<open>for (let repeats = ...; repeats--; digits.push(v));\<close>: an \<open>undefined\<close> count is NaN and
  ends the loop at once, a count \<open>n \<ge> 0\<close> pushes \<open>n\<close> times, and a negative count is never
  falsy again (no result).
\<close>

definition push_repeats :: "int option \<Rightarrow> int \<Rightarrow> int list \<Rightarrow> int list option" where
  "push_repeats repeats v digits =
     (case repeats of
        None \<Rightarrow> Some digits
      | Some n \<Rightarrow> if n < 0 then None else Some (digits @ replicate (nat n) v))"

text \<open>
  The loop that rebuilds the limbs (lines 232 to 242).  It ends when \<open>i\<close> is exactly 0;
  the result is \<open>None\<close> where the loop of the source never reaches 0.  Below index 0
  the source pushes \<open>undefined\<close> at every step, so an engine stops the program when the
  array has used up the memory or reached the largest array length; the model keeps the
  limbs as they are there, since no value is returned.
\<close>

partial_function (option) limbs_loop :: "int list \<Rightarrow> int \<Rightarrow> int list \<Rightarrow> int list option" where
  "limbs_loop digitsInReverse i digits =
     (if i = 0 then Some digits
      else
        (case js_index digitsInReverse (i - 1) of
           None \<Rightarrow> limbs_loop digitsInReverse (i - 1) digits
         | Some nextDigits \<Rightarrow>
             if nextDigits = ZEROS_SIGNIFIER then
               (case push_repeats (js_index digitsInReverse (i - 2)) ALL_ZEROS digits of
                  None \<Rightarrow> None
                | Some digits1 \<Rightarrow> limbs_loop digitsInReverse (i - 2) digits1)
             else if nextDigits = NINES_SIGNIFIER then
               (case push_repeats (js_index digitsInReverse (i - 2)) ALL_NINES digits of
                  None \<Rightarrow> None
                | Some digits1 \<Rightarrow> limbs_loop digitsInReverse (i - 2) digits1)
             else limbs_loop digitsInReverse (i - 1) (digits @ [nextDigits])))"

declare limbs_loop.simps [code]

text \<open>
  The argument of \<open>fromArrayBuffer\<close>: an \<open>ArrayBuffer\<close> with its bytes, or any other
  JavaScript value, with the string it converts to.
\<close>

datatype js_buffer = ArrayBuffer "8 word list" | NotArrayBuffer jsstring

text \<open>
  Lines 188 to 243: the limbs, the exponent and the sign read from a non-empty buffer,
  before the range check.
\<close>

definition read_fields :: "8 word list \<Rightarrow> (int list option \<times> jsnum \<times> jsnum) option" where
  "read_fields bytes =
     (let firstByte = uint (bytes ! 0);
          sign = (if js_and firstByte NEG_SIGN_BIT \<noteq> 0 then Num (- 1) else Num 1)
      in if length bytes = 1 then
           (if firstByte = NAN_BYTE \<or> firstByte = INFINITY_BYTE \<or> firstByte = NEG_INFINITY_BYTE
            then Some (None, NaN, if firstByte = NAN_BYTE then NaN else sign)
            else
              let integer0 = js_and firstByte SIX_LSB_MASK;
                  integer = (if js_and firstByte SMALL_INTEGER_BIT \<noteq> 0
                             then integer0 - SMALL_INTEGER_OFFSET
                             else integer0 - SMALLER_INTEGER_OFFSET)
              in Some (Some [integer], Num (if integer < 10 then 0 else 1), sign))
         else
           (let exponent0 = js_and firstByte SIX_LSB_MASK;
                (exponent1, indexOfLastMantissaByte) =
                  (if exponent0 > EXPONENT_OFFSET then (Num (exponent0 - EXPONENT_OFFSET), 1)
                   else if exponent0 \<noteq> 0 then
                     (exponent_loop bytes (nat exponent0) 0 (Num 0), 1 + nat exponent0)
                   else (Num exponent0, 1));
                exponent = (if js_and firstByte NEG_EXPONENT_SIGN_BIT \<noteq> 0
                            then js_neg exponent1 else exponent1);
                digitsInReverse = digits_loop bytes indexOfLastMantissaByte (length bytes) [0]
            in case limbs_loop digitsInReverse (int (length digitsInReverse)) [] of
                 None \<Rightarrow> None
               | Some digits \<Rightarrow> Some (Some digits, exponent, sign)))"




text \<open>
  \<open>fromArrayBuffer(Decimal, buffer)\<close>.  \<open>None\<close>: the call returns nothing (the loop
  over the limbs does not end).  \<open>Some (Inl err)\<close>:
  it throws.  \<open>Some (Inr None)\<close>: it returns \<open>null\<close>.  \<open>Some (Inr (Some x))\<close>: it returns the
  object with the fields \<open>d\<close>, \<open>e\<close> and \<open>s\<close> of \<open>x\<close>.
\<close>

definition fromArrayBuffer :: "host \<Rightarrow> js_buffer \<Rightarrow> (js_error + decimal option) option" where
  "fromArrayBuffer Decimal buffer =
     (case buffer of
        NotArrayBuffer str \<Rightarrow> Some (Inl (Error (js ''Not an ArrayBuffer: '' @ str)))
      | ArrayBuffer bytes \<Rightarrow>
          if length bytes = 0 then Some (Inr None)
          else
            (case read_fields bytes of
               None \<Rightarrow> None
             | Some (digits, exponent, sign) \<Rightarrow>
                 if js_gt exponent (maxE Decimal) \<or> js_lt exponent (minE Decimal)
                 then Some (Inr (Some \<lparr>d = None, e = NaN, s = sign\<rparr>))
                 else Some (Inr (Some \<lparr>d = digits, e = exponent, s = sign\<rparr>))))"

text \<open>
  The bounds of decimal.js as it ships (\<open>EXP_LIMIT = 9e15\<close>).
  Modelled from the spec: the host's \<open>maxE\<close> and \<open>minE\<close> are not in the repository; the
  spec gives \<open>9e15\<close> as the largest absolute exponent of the host.
\<close>

definition default_host :: host where
  "default_host = \<lparr>maxE = 9000000000000000, minE = - 9000000000000000\<rparr>"

subsection \<open>Notions used to state the properties of the serializer\<close>

text \<open>
  The value of a list of digits, least significant digit first, as \<open>convert\<close> keeps its
  result.
\<close>

fun le_val :: "int \<Rightarrow> int list \<Rightarrow> int" where
  "le_val b [] = 0"
| "le_val b (x # xs) = x + b * le_val b xs"

text \<open>
  The carry loop of \<open>convert\<close> on the part of the array from the index on: the same
  steps as \<open>carry_loop\<close>, on a list instead of an index into the array.
\<close>

function carry_list :: "int \<Rightarrow> int list \<Rightarrow> int list" where
  "carry_list b [] = []"
| "carry_list b [y] =
     (if 2 \<le> b \<and> y > b - 1 then (y smod b) # carry_list b [js_int32 (y sdiv b)] else [y])"
| "carry_list b (y # x # xs) =
     (if 2 \<le> b \<and> y > b - 1
      then (y smod b) # carry_list b ((x + js_int32 (y sdiv b)) # xs)
      else y # carry_list b (x # xs))"
  by pat_completeness auto
termination
proof (relation "measure (\<lambda>(b, xs). sum_list (map (\<lambda>x. nat x + 1) xs))", goal_cases)
  case 1
  show ?case by simp
next
  case (2 b y)
  then have "js_int32 (y sdiv b) \<le> y div 2" and "0 < y"
    using carry_quotient_le [of b y] by simp_all
  then have "nat (js_int32 (y sdiv b)) < nat y" by linarith
  then show ?case by simp
next
  case (3 b y x xs)
  then have "js_int32 (y sdiv b) \<le> y div 2" and "0 < y"
    using carry_quotient_le [of b y] by simp_all
  then have "nat (x + js_int32 (y sdiv b)) < nat y + nat x + 1" by linarith
  then show ?case by simp
next
  case (4 b y x xs)
  then show ?case by simp
qed

declare carry_list.simps [simp del]

text \<open>
  The elements that one call of \<open>convert\<close> can meet in its carry loop: the first one
  is at most \<open>M + Q\<close> (a product plus the value added or a carry), the others at most
  \<open>M\<close>.
\<close>

definition carry_bounded :: "int \<Rightarrow> int \<Rightarrow> int list \<Rightarrow> bool" where
  "carry_bounded M Q seg \<longleftrightarrow>
     (case seg of [] \<Rightarrow> True
      | y # xs \<Rightarrow> 0 \<le> y \<and> y \<le> M + Q \<and> list_all (\<lambda>x. 0 \<le> x \<and> x \<le> M) xs)"
lemma js_int32_id: "0 \<le> v \<Longrightarrow> v < 2147483648 \<Longrightarrow> js_int32 v = v"
  by (simp add: js_int32_def signed_take_bit_int_eq_self)

lemma carry_step_facts:
  assumes "2 \<le> b" and "b - 1 < y" and "y \<le> M + Q" and "(M + Q) div b \<le> Q" and "Q < 2147483648"
  shows "y smod b = y mod b" and "js_int32 (y sdiv b) = y div b" and "0 < y div b"
    and "y div b \<le> Q" and "0 \<le> y mod b" and "y mod b < b"
proof -
  from assms have y: "0 < y" and b0: "0 < b" by simp_all
  show "y smod b = y mod b" using y b0 by (simp add: smod_nonneg_eq_mod)
  have q: "y div b \<le> Q"
    using zdiv_mono1 [of y "M + Q" b] assms b0 by simp
  show "0 < y div b" using assms b0 by (simp add: pos_imp_zdiv_pos_iff)
  then show "js_int32 (y sdiv b) = y div b"
    using q assms(5) y b0 by (simp add: sdiv_nonneg_eq_div js_int32_id)
  show "y div b \<le> Q" by (rule q)
  show "0 \<le> y mod b" "y mod b < b" using b0 by simp_all
qed

text \<open>
  The test \<open>zerosOrNinesRepeatMoreThanTwice\<close> of \<open>toArrayBuffer\<close> at the limb \<open>i\<close>.
\<close>

definition repeats_at :: "int list \<Rightarrow> nat \<Rightarrow> bool" where
  "repeats_at digits i \<longleftrightarrow>
     (digits ! i = ALL_ZEROS \<or> digits ! i = ALL_NINES) \<and>
     digit_at digits (i + 1) = Some (digits ! i) \<and>
     digit_at digits (i + 2) = Some (digits ! i)"

text \<open>
  The values that the loop over the limbs hands to \<open>convert\<close>, in order, from the limb
  \<open>i\<close> on: a limb, or a signifier followed by the length of the run.
\<close>

function tokens_from :: "int list \<Rightarrow> nat \<Rightarrow> int list" where
  "tokens_from digits i =
     (if i < length digits then
        if repeats_at digits i then
          (if digits ! i = ALL_ZEROS then ZEROS_SIGNIFIER else NINES_SIGNIFIER)
            # int (count_repeats digits i (digits ! i) 3)
            # tokens_from digits (i + count_repeats digits i (digits ! i) 3)
        else digits ! i # tokens_from digits (i + 1)
      else [])"
  by pat_completeness auto
termination
proof (relation "measure (\<lambda>(digits, i). length digits - i)", goal_cases)
  case 1
  show ?case by simp
next
  case (2 digits i)
  from 2(1) count_repeats_ge [of 3 digits i "digits ! i"] show ?case by simp
next
  case (3 digits i)
  then show ?case by simp
qed

declare tokens_from.simps [simp del]


text \<open>
  The nested conditional that gives \<open>exponentByteCount\<close> for an exponent above
  \<open>MAX_SMALL_EXPONENT\<close>.
\<close>

definition exponent_count :: "int \<Rightarrow> nat" where
  "exponent_count m =
     (if m < 0x100 then 1 else if m < 0x10000 then 2 else if m < 0x1000000 then 3
      else if m < 0x100000000 then 4 else if m < 0x10000000000 then 5
      else if m < 0x1000000000000 then 6 else 7)"

section \<open>The expression evaluator (evaluate/index.js)\<close>

subsection \<open>Arguments and the host's decimal methods\<close>

text \<open>
  The methods of the host class that the evaluator calls.  They are not part of the
  repository and stay parameters: the constructor on a numeric literal, on a number (the
  0 or 1 of a comparison) and on a \<open>Decimal\<close>, the arithmetic and comparison methods, and
  \<open>toString\<close> for the text of an error.
\<close>

record host_ops =
  Decimal_of_string :: "jsstring \<Rightarrow> decimal"
  Decimal_of_number :: "int \<Rightarrow> decimal"
  Decimal_of_Decimal :: "decimal \<Rightarrow> decimal"
  d_plus :: "decimal \<Rightarrow> decimal \<Rightarrow> decimal"
  d_minus :: "decimal \<Rightarrow> decimal \<Rightarrow> decimal"
  d_times :: "decimal \<Rightarrow> decimal \<Rightarrow> decimal"
  d_div :: "decimal \<Rightarrow> decimal \<Rightarrow> decimal"
  d_mod :: "decimal \<Rightarrow> decimal \<Rightarrow> decimal"
  d_pow :: "decimal \<Rightarrow> decimal \<Rightarrow> decimal"
  d_sqrt :: "decimal \<Rightarrow> decimal"
  d_gt :: "decimal \<Rightarrow> decimal \<Rightarrow> bool"
  d_gte :: "decimal \<Rightarrow> decimal \<Rightarrow> bool"
  d_lt :: "decimal \<Rightarrow> decimal \<Rightarrow> bool"
  d_lte :: "decimal \<Rightarrow> decimal \<Rightarrow> bool"
  d_eq :: "decimal \<Rightarrow> decimal \<Rightarrow> bool"
  d_isZero :: "decimal \<Rightarrow> bool"
  d_toString :: "decimal \<Rightarrow> jsstring"

text \<open>
  A value of a scope object: a function (its result after \<open>new Decimal(...)\<close>, or \<open>None\<close>
  where the call or the constructor throws), or any other value (\<open>None\<close> where
  \<open>new Decimal(val)\<close> throws).  An argument of \<open>Decimal.eval\<close>: \<open>undefined\<close>, \<open>null\<close>, a
  string, a plain object with its own enumerable entries in order, or a value of another
  type with the string it converts to.  \<open>js_string_of\<close> is the text that a template
  literal makes of the argument.
\<close>

datatype js_val = JFunction "decimal list \<Rightarrow> decimal option" | JValue "decimal option"

datatype js_arg =
  Undefined | Null | JString jsstring | JObject "(jsstring \<times> js_val) list" | JOther jsstring

fun js_string_of :: "js_arg \<Rightarrow> jsstring" where
  "js_string_of Undefined = js ''undefined''"
| "js_string_of Null = js ''null''"
| "js_string_of (JString str) = str"
| "js_string_of (JObject entries) = js ''[object Object]''"
| "js_string_of (JOther str) = str"

datatype binding = Function "decimal list \<Rightarrow> decimal option" | Variable decimal

type_synonym scope = "(jsstring \<times> binding) list"

text \<open>\<open>SCOPE[id] = v\<close>: a new key goes to the end, an old key keeps its place.\<close>

fun scope_put :: "jsstring \<Rightarrow> binding \<Rightarrow> scope \<Rightarrow> scope" where
  "scope_put k v [] = [(k, v)]"
| "scope_put k v ((k', v') # rest) =
     (if k = k' then (k, v) # rest else (k', v') # scope_put k v rest)"

subsection \<open>Tokens and the operator table\<close>

datatype op =
  Pow | Times | Div | Mod | Plus | Minus | Gt | Gte | Lt | Lte | Eq | Neq | And | Or
  | Sqrt | Not | LParen | RParen | Comma

datatype token = NumTok decimal | VarTok jsstring | FuncTok jsstring | OpTok op | EndTok

text \<open>\<open>obj.val\<close> of an operator and its left binding power (lines 92 to 127).\<close>

fun op_val :: "op \<Rightarrow> jsstring" where
  "op_val Pow = js ''^''"
| "op_val Times = js ''*''"
| "op_val Div = js ''/''"
| "op_val Mod = js ''%''"
| "op_val Plus = js ''+''"
| "op_val Minus = js ''-''"
| "op_val Gt = js ''>''"
| "op_val Gte = js ''>=''"
| "op_val Lt = js ''<''"
| "op_val Lte = js ''<=''"
| "op_val Eq = js ''==''"
| "op_val Neq = js ''!=''"
| "op_val And = js ''&&''"
| "op_val Or = js ''||''"
| "op_val Sqrt = [8730]"
| "op_val Not = js ''!''"
| "op_val LParen = js ''(''"
| "op_val RParen = js '')''"
| "op_val Comma = js '',''"

fun op_lbp :: "op \<Rightarrow> nat" where
  "op_lbp Pow = 80"
| "op_lbp Times = 60"
| "op_lbp Div = 60"
| "op_lbp Mod = 60"
| "op_lbp Plus = 50"
| "op_lbp Minus = 50"
| "op_lbp Gt = 40"
| "op_lbp Gte = 40"
| "op_lbp Lt = 40"
| "op_lbp Lte = 40"
| "op_lbp Eq = 30"
| "op_lbp Neq = 30"
| "op_lbp And = 20"
| "op_lbp Or = 10"
| "op_lbp Sqrt = 0"
| "op_lbp Not = 0"
| "op_lbp LParen = 0"
| "op_lbp RParen = 0"
| "op_lbp Comma = 0"

text \<open>
  \<open>rbp < token.lbp\<close>: only an operator has an \<open>lbp\<close>; for every other token the
  comparison is with \<open>undefined\<close> and false.
\<close>

fun binds :: "nat \<Rightarrow> token \<Rightarrow> bool" where
  "binds rbp (OpTok opr) = (rbp < op_lbp opr)"
| "binds rbp _ = False"

text \<open>
  \<open>token.val === 'end'\<close> and \<open>token.val === ')'\<close>.  The \<open>val\<close> of a variable or function
  token is its name, so an identifier called \<open>end\<close> passes the first test.
\<close>

fun val_is_end :: "token \<Rightarrow> bool" where
  "val_is_end EndTok = True"
| "val_is_end (VarTok x) = (x = js ''end'')"
| "val_is_end (FuncTok x) = (x = js ''end'')"
| "val_is_end _ = False"

fun val_is :: "op \<Rightarrow> token \<Rightarrow> bool" where
  "val_is opr (OpTok opr') = (op_val opr' = op_val opr)"
| "val_is opr (VarTok x) = (x = op_val opr)"
| "val_is opr (FuncTok x) = (x = op_val opr)"
| "val_is opr _ = False"

fun token_text :: "host_ops \<Rightarrow> token \<Rightarrow> jsstring" where
  "token_text H (NumTok v) = d_toString H v"
| "token_text H (VarTok x) = x"
| "token_text H (FuncTok x) = x"
| "token_text H (OpTok opr) = op_val opr"
| "token_text H EndTok = js ''end''"

subsection \<open>The tokenizer\<close>

definition is_digit :: "nat \<Rightarrow> bool" where
  "is_digit c \<longleftrightarrow> 48 \<le> c \<and> c \<le> 57"

definition is_word :: "nat \<Rightarrow> bool" where
  "is_word c \<longleftrightarrow> is_digit c \<or> (65 \<le> c \<and> c \<le> 90) \<or> (97 \<le> c \<and> c \<le> 122) \<or> c = 95"

definition is_greek :: "nat \<Rightarrow> bool" where
  "is_greek c \<longleftrightarrow> 0x370 \<le> c \<and> c \<le> 0x3FF"

text \<open>The class \<open>\s\<close>, which is also what \<open>trim\<close> strips.\<close>

definition is_space :: "nat \<Rightarrow> bool" where
  "is_space c \<longleftrightarrow>
     c \<in> set [9, 10, 11, 12, 13, 32, 0xA0, 0x1680, 0x2028, 0x2029, 0x202F, 0x205F, 0x3000, 0xFEFF]
     \<or> (0x2000 \<le> c \<and> c \<le> 0x200A)"

definition trim :: "jsstring \<Rightarrow> jsstring" where
  "trim str = rev (dropWhile is_space (rev (dropWhile is_space str)))"

text \<open>\<open>expression.replace(/\*\*/g, '^')\<close>\<close>

fun replace_pow :: "jsstring \<Rightarrow> jsstring" where
  "replace_pow (a # b # rest) =
     (if a = 42 \<and> b = 42 then 94 # replace_pow rest else a # replace_pow (b # rest))"
| "replace_pow rest = rest"

text \<open>\<open>/^[a-zA-Z_$\u0370-\u03FF][\w\u0370-\u03FF$]*$/\<close>\<close>

definition VALID_IDENTIFIER :: "jsstring \<Rightarrow> bool" where
  "VALID_IDENTIFIER ident \<longleftrightarrow>
     (case ident of
        [] \<Rightarrow> False
      | c # rest \<Rightarrow>
          ((65 \<le> c \<and> c \<le> 90) \<or> (97 \<le> c \<and> c \<le> 122) \<or> c = 95 \<or> c = 36 \<or> is_greek c) \<and>
          list_all (\<lambda>x. is_word x \<or> is_greek x \<or> x = 36) rest)"

text \<open>
  Group 1 of the tokenizer, \<open>\d+(?:\.\d+)?(?:[eE][+-]?\d+)?\<close>, at the head of the input:
  the text matched and the rest.  Each part is greedy, and an optional part that cannot
  be completed matches nothing.
\<close>

definition match_fraction :: "jsstring \<Rightarrow> jsstring \<times> jsstring" where
  "match_fraction cs =
     (case cs of
        c # rest \<Rightarrow>
          if c = 46 \<and> takeWhile is_digit rest \<noteq> []
          then (c # takeWhile is_digit rest, dropWhile is_digit rest)
          else ([], cs)
      | [] \<Rightarrow> ([], cs))"

definition match_exponent :: "jsstring \<Rightarrow> jsstring \<times> jsstring" where
  "match_exponent cs =
     (case cs of
        c # rest \<Rightarrow>
          if c = 101 \<or> c = 69 then
            (let (sg, rest1) =
                   (case rest of
                      c2 # rest2 \<Rightarrow> if c2 = 43 \<or> c2 = 45 then ([c2], rest2) else ([], rest)
                    | [] \<Rightarrow> ([], rest))
             in if takeWhile is_digit rest1 \<noteq> []
                then (c # sg @ takeWhile is_digit rest1, dropWhile is_digit rest1)
                else ([], cs))
          else ([], cs)
      | [] \<Rightarrow> ([], cs))"

definition match_number :: "jsstring \<Rightarrow> (jsstring \<times> jsstring) option" where
  "match_number cs =
     (if takeWhile is_digit cs = [] then None
      else
        (let (fraction, rest1) = match_fraction (dropWhile is_digit cs);
             (exponent, rest2) = match_exponent rest1
         in Some (takeWhile is_digit cs @ fraction @ exponent, rest2)))"

text \<open>
  Group 2: the identifiers of the scope in the order of the alternation; the first one
  that is a prefix of the input matches.  The identifiers that \<open>Decimal.eval\<close> puts
  into the expression are never empty (\<open>VALID_IDENTIFIER\<close>, or the \<open>0\<close> of
  \<open>DEFAULT_TOKENIZER\<close>).
\<close>

definition match_identifier :: "jsstring list \<Rightarrow> jsstring \<Rightarrow> jsstring option" where
  "match_identifier identifiers cs =
     find (\<lambda>ident. ident \<noteq> [] \<and> take (length ident) cs = ident) identifiers"

text \<open>Group 4, the lookahead \<open>(?=([\w($\u221A\u0370-\u03FF]|!(?!=))?)\<close>: whether it captures.\<close>

definition lookahead :: "jsstring \<Rightarrow> bool" where
  "lookahead cs =
     (case cs of
        [] \<Rightarrow> False
      | c # rest \<Rightarrow>
          is_word c \<or> c = 40 \<or> c = 36 \<or> c = 8730 \<or> is_greek c \<or>
          (c = 33 \<and> (case rest of [] \<Rightarrow> True | c2 # _ \<Rightarrow> c2 \<noteq> 61)))"

text \<open>Group 5, \<open>[!<>=]=|[-+*\/(^%><!\u221A,]|&&|\|\|\<close>: the operator and the rest.\<close>

definition two_char_op :: "nat \<Rightarrow> nat \<Rightarrow> op option" where
  "two_char_op a b =
     (if b = 61 then
        (if a = 33 then Some Neq else if a = 60 then Some Lte
         else if a = 62 then Some Gte else if a = 61 then Some Eq else None)
      else None)"

definition one_char_op :: "nat \<Rightarrow> op option" where
  "one_char_op a =
     (if a = 45 then Some Minus else if a = 43 then Some Plus else if a = 42 then Some Times
      else if a = 47 then Some Div else if a = 40 then Some LParen else if a = 94 then Some Pow
      else if a = 37 then Some Mod else if a = 62 then Some Gt else if a = 60 then Some Lt
      else if a = 33 then Some Not else if a = 8730 then Some Sqrt else if a = 44 then Some Comma
      else None)"

definition match_operator :: "jsstring \<Rightarrow> (op \<times> jsstring) option" where
  "match_operator cs =
     (case cs of
        [] \<Rightarrow> None
      | a # rest \<Rightarrow>
          (case (case rest of b # rest2 \<Rightarrow> map_option (\<lambda>opr. (opr, rest2)) (two_char_op a b)
                 | [] \<Rightarrow> None) of
             Some r \<Rightarrow> Some r
           | None \<Rightarrow>
               (case one_char_op a of
                  Some opr \<Rightarrow> Some (opr, rest)
                | None \<Rightarrow>
                    (case rest of
                       b # rest2 \<Rightarrow>
                         if a = 38 \<and> b = 38 then Some (And, rest2)
                         else if a = 124 \<and> b = 124 then Some (Or, rest2)
                         else None
                     | [] \<Rightarrow> None))))"

text \<open>
  One \<open>TOKENIZER.exec\<close> at a non-space character and the branch of the loop body taken
  (lines 232 to 251): the token, the text \<open>m\<close>, whether a \<open>*\<close> is to be added, and the rest
  of the input; or the character that matched only \<open>\S\<close>.
\<close>

definition next_token ::
    "host_ops \<Rightarrow> scope \<Rightarrow> jsstring list \<Rightarrow> jsstring \<Rightarrow> nat + (token \<times> jsstring \<times> bool \<times> jsstring)" where
  "next_token H SCOPE identifiers cs =
     (case match_number cs of
        Some (m, rest) \<Rightarrow> Inr (NumTok (Decimal_of_string H m), m, lookahead rest, rest)
      | None \<Rightarrow>
          (case match_identifier identifiers cs of
             Some m \<Rightarrow>
               (case map_of SCOPE m of
                  Some (Function f) \<Rightarrow> Inr (FuncTok m, m, False, drop (length m) cs)
                | _ \<Rightarrow> Inr (VarTok m, m, lookahead (drop (length m) cs), drop (length m) cs))
           | None \<Rightarrow>
               (if take 1 cs = [41] then Inr (OpTok RParen, [41], lookahead (drop 1 cs), drop 1 cs)
                else
                  (case match_operator cs of
                     Some (opr, rest) \<Rightarrow> Inr (OpTok opr, op_val opr, False, rest)
                   | None \<Rightarrow> Inl (hd cs)))))"

lemma length_dropWhile_less: "takeWhile P xs \<noteq> [] \<Longrightarrow> length (dropWhile P xs) < length xs"
  by (induction xs) (auto simp: le_imp_less_Suc length_dropWhile_le split: if_splits)

lemma match_fraction_length: "match_fraction cs = (m, rest) \<Longrightarrow> length rest \<le> length cs"
  by (auto simp: match_fraction_def le_SucI length_dropWhile_le split: list.splits if_splits)

lemma match_exponent_length: "match_exponent cs = (m, rest) \<Longrightarrow> length rest \<le> length cs"
  by (auto simp: match_exponent_def Let_def le_SucI length_dropWhile_le
      intro: order_trans [OF length_dropWhile_le]
      split: list.splits if_splits prod.splits)

lemma match_number_length:
  assumes "match_number cs = Some (m, rest)"
  shows "length rest < length cs"
proof -
  from assms obtain fr r1 ex where nonempty: "takeWhile is_digit cs \<noteq> []"
    and f: "match_fraction (dropWhile is_digit cs) = (fr, r1)"
    and x: "match_exponent r1 = (ex, rest)"
    by (auto simp: match_number_def Let_def split: if_splits prod.splits)
  from match_exponent_length [OF x] match_fraction_length [OF f]
    length_dropWhile_less [OF nonempty]
  show ?thesis by simp
qed

lemma match_identifier_prefix:
  "match_identifier identifiers cs = Some m \<Longrightarrow> m \<noteq> [] \<and> take (length m) cs = m"
  by (auto simp: match_identifier_def dest: find_Some_iff [THEN iffD1])

lemma match_operator_length: "match_operator cs = Some (opr, rest) \<Longrightarrow> length rest < length cs"
  by (auto simp: match_operator_def split: list.splits option.splits if_splits)

lemma next_token_length:
  assumes "next_token H SCOPE identifiers (c # cs) = Inr (tok, m, star, rest)"
  shows "length rest < length (c # cs)"
proof (cases "match_number (c # cs)")
  case (Some a)
  obtain m0 r0 where a: "a = (m0, r0)" by (cases a)
  with Some assms match_number_length [of "c # cs" m0 r0] show ?thesis
    by (auto simp: next_token_def)
next
  case None
  note no_number = this
  show ?thesis
  proof (cases "match_identifier identifiers (c # cs)")
    case (Some ident)
    from match_identifier_prefix [OF this] have "0 < length ident" by simp
    with assms no_number Some show ?thesis
      by (auto simp: next_token_def split: option.splits binding.splits)
  next
    case None
    with assms no_number show ?thesis
      by (auto simp: next_token_def dest: match_operator_length split: if_splits option.splits)
  qed
qed

text \<open>
  The tokenizer loop: \<open>exec\<close> skips to the next non-space character and stops at the end
  of the input.  The result is the character of an unknown symbol, or the tokens with
  the parsed text.
\<close>

function tokenize ::
    "host_ops \<Rightarrow> scope \<Rightarrow> jsstring list \<Rightarrow> jsstring \<Rightarrow> token list \<Rightarrow> jsstring
      \<Rightarrow> nat + (token list \<times> jsstring)" where
  "tokenize H SCOPE identifiers cs TOKENS parsed =
     (case dropWhile is_space cs of
        [] \<Rightarrow> Inr (TOKENS, parsed)
      | c # rest0 \<Rightarrow>
          (case next_token H SCOPE identifiers (c # rest0) of
             Inl unknown \<Rightarrow> Inl unknown
           | Inr (tok, m, star, rest) \<Rightarrow>
               tokenize H SCOPE identifiers rest
                 (TOKENS @ [tok] @ (if star then [OpTok Times] else []))
                 (parsed @ m @ (if star then js ''*'' else []))))"
  by pat_completeness auto
termination
proof (relation "measure (\<lambda>(H, SCOPE, identifiers, cs, TOKENS, parsed). length cs)", goal_cases)
  case 1
  show ?case by simp
next
  case (2 H SCOPE identifiers cs TOKENS parsed c rest0 x tok y m z star rest)
  have "length (dropWhile is_space cs) \<le> length cs" by (rule length_dropWhile_le)
  moreover from 2 have "next_token H SCOPE identifiers (c # rest0) = Inr (tok, m, star, rest)"
    by simp
  from next_token_length [OF this] have "length rest < length (c # rest0)" .
  ultimately show ?case using 2(1) by simp
qed

declare tokenize.simps [simp del]

subsection \<open>The parser\<close>

text \<open>
  The right binding power an infix handler passes to \<open>evaluate\<close>, and what it does with
  the left operand and the result (lines 77 to 115).
\<close>

fun infix_rbp :: "op \<Rightarrow> nat" where
  "infix_rbp Pow = 79"
| "infix_rbp opr = op_lbp opr"

fun infix_apply :: "host_ops \<Rightarrow> op \<Rightarrow> decimal \<Rightarrow> decimal \<Rightarrow> decimal" where
  "infix_apply H Pow left r = d_pow H left r"
| "infix_apply H Times left r = d_times H left r"
| "infix_apply H Div left r = d_div H left r"
| "infix_apply H Mod left r = d_mod H left r"
| "infix_apply H Plus left r = d_plus H left r"
| "infix_apply H Minus left r = d_minus H left r"
| "infix_apply H Gt left r = Decimal_of_number H (if d_gt H left r then 1 else 0)"
| "infix_apply H Gte left r = Decimal_of_number H (if d_gte H left r then 1 else 0)"
| "infix_apply H Lt left r = Decimal_of_number H (if d_lt H left r then 1 else 0)"
| "infix_apply H Lte left r = Decimal_of_number H (if d_lte H left r then 1 else 0)"
| "infix_apply H Eq left r = Decimal_of_number H (if d_eq H left r then 1 else 0)"
| "infix_apply H Neq left r = Decimal_of_number H (if \<not> d_eq H left r then 1 else 0)"
| "infix_apply H And left r = (if d_isZero H left then left else r)"
| "infix_apply H Or left r = (if d_isZero H left then r else left)"
| "infix_apply H _ left r = left"

text \<open>
  \<open>evaluate(rbp)\<close> on the tokens from the current one, with the loop of \<open>evaluate\<close>
  (\<open>infix_loop\<close>) and the argument loop of \<open>funcPrefix\<close> (\<open>func_args\<close>).  The result is the
  value with the tokens left, or the error thrown.  The first argument bounds the depth
  of the calls; \<open>None\<close> means that the bound was reached.  Reading a property of the
  token past the end of the list throws a \<open>TypeError\<close>, and so does calling the missing
  \<open>infix\<close> of an operator whose \<open>lbp\<close> is 0 (neither is reached from \<open>Decimal.eval\<close>).
  A variable token whose name the scope does not bind to a value is only met after a
  failed scope installation, which replaces the scope and keeps the tokenizer and the
  stored tokens.  The source then reads \<open>undefined\<close> (or a function) and goes on until a
  method call on it or the host's constructor throws, or until \<open>&&\<close> or \<open>||\<close> drops it;
  the model throws at the read.
\<close>

fun evaluate ::
    "host_ops \<Rightarrow> scope \<Rightarrow> nat \<Rightarrow> nat \<Rightarrow> token list \<Rightarrow> (js_error + decimal \<times> token list) option"
  and infix_loop ::
    "host_ops \<Rightarrow> scope \<Rightarrow> nat \<Rightarrow> nat \<Rightarrow> decimal \<Rightarrow> token list
      \<Rightarrow> (js_error + decimal \<times> token list) option"
  and func_args ::
    "host_ops \<Rightarrow> scope \<Rightarrow> nat \<Rightarrow> decimal list \<Rightarrow> token list
      \<Rightarrow> (js_error + decimal list \<times> token list) option" where
  "evaluate H SCOPE 0 rbp ts = None"
| "evaluate H SCOPE (Suc n) rbp [] = Some (Inl (TypeError (js ''token is undefined'')))"
| "evaluate H SCOPE (Suc n) rbp (t # ts) =
     (case t of
        NumTok v \<Rightarrow> infix_loop H SCOPE n rbp v ts
      | VarTok x \<Rightarrow>
          (case map_of SCOPE x of
             Some (Variable v) \<Rightarrow> infix_loop H SCOPE n rbp v ts
           | _ \<Rightarrow> Some (Inl (TypeError (js ''undefined value''))))
      | FuncTok f \<Rightarrow>
          (case ts of
             [] \<Rightarrow> Some (Inl (TypeError (js ''token is undefined'')))
           | t1 # ts1 \<Rightarrow>
               if \<not> val_is LParen t1
               then Some (Inl (SyntaxError (js ''Decimal.eval: expected ('')))
               else
                 (case (case ts1 of
                          [] \<Rightarrow> Some (Inl (TypeError (js ''token is undefined'')))
                        | t2 # ts2 \<Rightarrow>
                            if val_is RParen t2 then Some (Inr ([], ts2))
                            else func_args H SCOPE n [] ts1) of
                    None \<Rightarrow> None
                  | Some (Inl err) \<Rightarrow> Some (Inl err)
                  | Some (Inr (args, ts3)) \<Rightarrow>
                      (case map_of SCOPE f of
                         Some (Function fn) \<Rightarrow>
                           (case fn args of
                              None \<Rightarrow> Some (Inl DecimalError)
                            | Some v \<Rightarrow> infix_loop H SCOPE n rbp v ts3)
                       | _ \<Rightarrow> Some (Inl (TypeError (js ''not a function''))))))
      | OpTok opr \<Rightarrow>
          (case opr of
             Plus \<Rightarrow>
               (case evaluate H SCOPE n 70 ts of
                  None \<Rightarrow> None
                | Some (Inl err) \<Rightarrow> Some (Inl err)
                | Some (Inr (r, ts1)) \<Rightarrow> infix_loop H SCOPE n rbp r ts1)
           | Minus \<Rightarrow>
               (case evaluate H SCOPE n 70 ts of
                  None \<Rightarrow> None
                | Some (Inl err) \<Rightarrow> Some (Inl err)
                | Some (Inr (r0, ts1)) \<Rightarrow>
                    (let r = Decimal_of_Decimal H r0
                     in infix_loop H SCOPE n rbp (r\<lparr>s := js_neg (s r)\<rparr>) ts1))
           | Sqrt \<Rightarrow>
               (case evaluate H SCOPE n 79 ts of
                  None \<Rightarrow> None
                | Some (Inl err) \<Rightarrow> Some (Inl err)
                | Some (Inr (r, ts1)) \<Rightarrow> infix_loop H SCOPE n rbp (d_sqrt H r) ts1)
           | Not \<Rightarrow>
               (case evaluate H SCOPE n 70 ts of
                  None \<Rightarrow> None
                | Some (Inl err) \<Rightarrow> Some (Inl err)
                | Some (Inr (r, ts1)) \<Rightarrow>
                    infix_loop H SCOPE n rbp
                      (Decimal_of_number H (if d_isZero H r then 1 else 0)) ts1)
           | LParen \<Rightarrow>
               (case evaluate H SCOPE n 0 ts of
                  None \<Rightarrow> None
                | Some (Inl err) \<Rightarrow> Some (Inl err)
                | Some (Inr (r, ts1)) \<Rightarrow>
                    (case ts1 of
                       [] \<Rightarrow> Some (Inl (TypeError (js ''token is undefined'')))
                     | t1 # ts2 \<Rightarrow>
                         if \<not> val_is RParen t1
                         then Some (Inl (Error (js ''Decimal.eval: expected )'')))
                         else infix_loop H SCOPE n rbp r ts2))
           | _ \<Rightarrow>
               Some (Inl (SyntaxError (js ''Decimal.eval: unexpected symbol: '' @ op_val opr))))
      | EndTok \<Rightarrow> Some (Inl (SyntaxError (js ''Decimal.eval: unexpected end''))))"
| "infix_loop H SCOPE 0 rbp left ts = None"
| "infix_loop H SCOPE (Suc n) rbp left [] = Some (Inl (TypeError (js ''token is undefined'')))"
| "infix_loop H SCOPE (Suc n) rbp left (t # ts) =
     (if binds rbp t then
        (case t of
           OpTok opr \<Rightarrow>
             (case evaluate H SCOPE n (infix_rbp opr) ts of
                None \<Rightarrow> None
              | Some (Inl err) \<Rightarrow> Some (Inl err)
              | Some (Inr (r, ts1)) \<Rightarrow> infix_loop H SCOPE n rbp (infix_apply H opr left r) ts1)
         | _ \<Rightarrow> Some (Inl (TypeError (js ''infix is not a function''))))
      else Some (Inr (left, t # ts)))"
| "func_args H SCOPE 0 args ts = None"
| "func_args H SCOPE (Suc n) args ts =
     (case evaluate H SCOPE n 0 ts of
        None \<Rightarrow> None
      | Some (Inl err) \<Rightarrow> Some (Inl err)
      | Some (Inr (v, ts1)) \<Rightarrow>
          (case ts1 of
             [] \<Rightarrow> Some (Inl (TypeError (js ''token is undefined'')))
           | t1 # ts2 \<Rightarrow>
               if \<not> val_is Comma t1 then
                 (if \<not> val_is RParen t1
                  then Some (Inl (SyntaxError (js ''Decimal.eval: expected )'')))
                  else Some (Inr (args @ [v], ts2)))
               else func_args H SCOPE n (args @ [v]) ts2))"

subsection \<open>Decimal.eval\<close>

text \<open>
  Lines 193 to 201: the entries of the scope object go into a fresh \<open>SCOPE\<close> one by one;
  an invalid identifier or a value that \<open>new Decimal\<close> rejects throws and leaves the
  entries installed so far.
\<close>

fun install_entries :: "(jsstring \<times> js_val) list \<Rightarrow> scope \<Rightarrow> js_error option \<times> scope" where
  "install_entries [] SCOPE = (None, SCOPE)"
| "install_entries ((ident, val) # rest) SCOPE =
     (if \<not> VALID_IDENTIFIER ident
      then (Some (SyntaxError (js ''Decimal.eval: invalid identifier: '' @ ident)), SCOPE)
      else
        (case val of
           JFunction f \<Rightarrow> install_entries rest (scope_put ident (Function f) SCOPE)
         | JValue None \<Rightarrow> (Some DecimalError, SCOPE)
         | JValue (Some v) \<Rightarrow> install_entries rest (scope_put ident (Variable v) SCOPE)))"

text \<open>\<open>identifiers.sort(longestFirst)\<close>, a stable sort.\<close>

definition longestFirst :: "jsstring list \<Rightarrow> jsstring list" where
  "longestFirst identifiers = sort_key (\<lambda>ident. - int (length ident)) identifiers"

text \<open>
  Lines 274 to 290: the entries of the updating object are written into \<open>SCOPE\<close> one by
  one; the first entry that fails throws, and the entries before it stay written.
\<close>

fun update_entries :: "(jsstring \<times> js_val) list \<Rightarrow> scope \<Rightarrow> js_error option \<times> scope" where
  "update_entries [] SCOPE = (None, SCOPE)"
| "update_entries ((ident, val) # rest) SCOPE =
     (case map_of SCOPE ident of
        Some (Function f) \<Rightarrow>
          (case val of
             JFunction g \<Rightarrow> update_entries rest (scope_put ident (Function g) SCOPE)
           | JValue v \<Rightarrow>
               (Some (TypeError (js ''Decimal.eval: '' @ ident @ js '' must be a function'')), SCOPE))
      | Some (Variable old) \<Rightarrow>
          (case val of
             JFunction g \<Rightarrow>
               (Some (TypeError (js ''Decimal.eval: '' @ ident @ js '' must not be a function'')),
                SCOPE)
           | JValue None \<Rightarrow> (Some DecimalError, SCOPE)
           | JValue (Some v) \<Rightarrow> update_entries rest (scope_put ident (Variable v) SCOPE))
      | None \<Rightarrow>
          (Some (Error (js ''Decimal.eval: identifier not in scope: '' @ ident)), SCOPE))"

text \<open>
  What \<open>SCOPE\<close> holds for a value of a scope object that both loops accept: the function
  itself, or \<open>new Decimal(val)\<close>.
\<close>

fun binding_of :: "js_val \<Rightarrow> binding option" where
  "binding_of (JFunction f) = Some (Function f)"
| "binding_of (JValue (Some v)) = Some (Variable v)"
| "binding_of (JValue None) = None"

text \<open>
  The variables of the closure that outlive a call, and \<open>Decimal.eval.expression\<close>.
  \<open>TOKENIZER\<close> is kept as the list of identifiers in its alternation.
\<close>

record evaluator_state =
  TOKENIZER :: "jsstring list"
  TOKENS :: "token list option"
  SCOPE :: scope
  expression :: "jsstring option"

definition DEFAULT_TOKENIZER :: "jsstring list" where
  "DEFAULT_TOKENIZER = [js ''0'']"

definition initial_state :: evaluator_state where
  "initial_state = \<lparr>TOKENIZER = DEFAULT_TOKENIZER, TOKENS = None, SCOPE = [], expression = None\<rparr>"

text \<open>
  Lines 295 to 300: evaluate the stored tokens from the first one.  Every call of
  \<open>evaluate\<close> takes at least one token, so twice the number of tokens bounds the depth.
\<close>

definition run_tokens ::
    "host_ops \<Rightarrow> evaluator_state \<Rightarrow> (js_error + decimal) option \<times> evaluator_state" where
  "run_tokens H st =
     (case TOKENS st of
        None \<Rightarrow> (Some (Inl (TypeError (js ''TOKENS is null''))), st)
      | Some toks \<Rightarrow>
          (case evaluate H (SCOPE st) (2 * length toks + 2) 0 toks of
             None \<Rightarrow> (None, st)
           | Some (Inl err) \<Rightarrow> (Some (Inl err), st)
           | Some (Inr (v, rest)) \<Rightarrow>
               (case rest of
                  [] \<Rightarrow> (Some (Inl (TypeError (js ''token is undefined''))), st)
                | t # _ \<Rightarrow>
                    if \<not> val_is_end t
                    then (Some (Inl (SyntaxError
                            (js ''Decimal.eval: unexpected symbol: '' @ token_text H t))), st)
                    else (Some (Inr (Decimal_of_Decimal H v)), st))))"

text \<open>
  \<open>Decimal.eval(expression, scope)\<close> (lines 185 to 301): the outcome of the call (\<open>None\<close>
  if the depth bound was reached, the error thrown, or the result) and the state it
  leaves.
\<close>

definition Decimal_eval ::
    "host_ops \<Rightarrow> evaluator_state \<Rightarrow> js_arg \<Rightarrow> js_arg
      \<Rightarrow> (js_error + decimal) option \<times> evaluator_state" where
  "Decimal_eval H st expr scope =
     (case expr of
        JString str \<Rightarrow>
          if trim str \<noteq> [] then
            (let (failed, st1) =
                   (case scope of
                      Undefined \<Rightarrow> (None, st)
                    | JObject entries \<Rightarrow>
                        (case install_entries entries [] of
                           (Some err, SCOPE1) \<Rightarrow> (Some err, st\<lparr>SCOPE := SCOPE1\<rparr>)
                         | (None, SCOPE1) \<Rightarrow>
                             (None, st\<lparr>SCOPE := SCOPE1,
                                TOKENIZER := (if map fst SCOPE1 \<noteq> []
                                              then longestFirst (map fst SCOPE1)
                                              else DEFAULT_TOKENIZER)\<rparr>))
                    | _ \<Rightarrow>
                        (Some (TypeError (js ''Decimal.eval: invalid scope: '' @ js_string_of scope)),
                         st))
             in case failed of
                  Some err \<Rightarrow> (Some (Inl err), st1)
                | None \<Rightarrow>
                    (case tokenize H (SCOPE st1) (TOKENIZER st1) (replace_pow str) [] [] of
                       Inl unknown \<Rightarrow>
                         (Some (Inl (SyntaxError (js ''Decimal.eval: unknown symbol: '' @ [unknown]))),
                          st1\<lparr>TOKENS := None\<rparr>)
                     | Inr (toks, parsed) \<Rightarrow>
                         run_tokens H
                           (st1\<lparr>TOKENS := Some (toks @ [EndTok]), expression := Some parsed\<rparr>)))
          else (Some (Inl (TypeError (js ''Decimal.eval: invalid expression: '' @ str))), st)
      | JObject entries \<Rightarrow>
          (case scope of
             Undefined \<Rightarrow>
               (case TOKENS st of
                  None \<Rightarrow>
                    (Some (Inl (Error (js ''Decimal.eval: no expression to re-evaluate''))), st)
                | Some toks \<Rightarrow>
                    (case update_entries entries (SCOPE st) of
                       (Some err, SCOPE1) \<Rightarrow> (Some (Inl err), st\<lparr>SCOPE := SCOPE1\<rparr>)
                     | (None, SCOPE1) \<Rightarrow> run_tokens H (st\<lparr>SCOPE := SCOPE1\<rparr>)))
           | _ \<Rightarrow>
               (Some (Inl (TypeError
                  (js ''Decimal.eval: invalid expression: '' @ js_string_of expr))), st))
      | _ \<Rightarrow>
          (Some (Inl (TypeError (js ''Decimal.eval: invalid expression: '' @ js_string_of expr))),
           st))"

subsection \<open>A stand-in for the host\<close>

text \<open>
  A small host over the integers, to run the evaluator on concrete inputs: a decimal holds
  one limb and a sign, a literal is read from its leading digits, and division is integer
  division.  It is not decimal.js; the theorems below hold for every host.
\<close>

definition toy_val :: "decimal \<Rightarrow> int" where
  "toy_val x = (case (d x, s x) of (Some (n # _), Num sg) \<Rightarrow> sg * n | _ \<Rightarrow> 0)"

definition toy_dec :: "int \<Rightarrow> decimal" where
  "toy_dec n = \<lparr>d = Some [\<bar>n\<bar>], e = Num 0, s = Num (if n < 0 then - 1 else 1)\<rparr>"

definition toy_digits :: "jsstring \<Rightarrow> int" where
  "toy_digits m = foldl (\<lambda>acc c. 10 * acc + (int c - 48)) 0 (takeWhile is_digit m)"

definition toy_host :: host_ops where
  "toy_host = \<lparr>
     Decimal_of_string = (\<lambda>m. toy_dec (toy_digits m)),
     Decimal_of_number = toy_dec,
     Decimal_of_Decimal = (\<lambda>x. x),
     d_plus = (\<lambda>x y. toy_dec (toy_val x + toy_val y)),
     d_minus = (\<lambda>x y. toy_dec (toy_val x - toy_val y)),
     d_times = (\<lambda>x y. toy_dec (toy_val x * toy_val y)),
     d_div = (\<lambda>x y. toy_dec (toy_val x div toy_val y)),
     d_mod = (\<lambda>x y. toy_dec (toy_val x mod toy_val y)),
     d_pow = (\<lambda>x y. toy_dec (toy_val x ^ nat (toy_val y))),
     d_sqrt = (\<lambda>x. x),
     d_gt = (\<lambda>x y. toy_val x > toy_val y),
     d_gte = (\<lambda>x y. toy_val x \<ge> toy_val y),
     d_lt = (\<lambda>x y. toy_val x < toy_val y),
     d_lte = (\<lambda>x y. toy_val x \<le> toy_val y),
     d_eq = (\<lambda>x y. toy_val x = toy_val y),
     d_isZero = (\<lambda>x. toy_val x = 0),
     d_toString = (\<lambda>x. [])\<rparr>"


section \<open>Properties of the serializer\<close>

subsection \<open>The loop that rebuilds the limbs\<close>

lemma limbs_loop_nonneg:
  assumes "limbs_loop rs0 i0 acc0 = Some y0"
  shows "0 \<le> i0"
proof (rule limbs_loop.raw_induct [where P = "\<lambda>rs i acc y. 0 \<le> i", OF _ assms], goal_cases)
  case (1 f rs i acc y)
  show ?case
  proof (rule ccontr)
    assume "\<not> 0 \<le> i"
    then have neg: "i < 0" by simp
    then have "js_index rs (i - 1) = None" by (simp add: js_index_def)
    with 1(2) neg have "f rs (i - 1) acc = Some y" by simp
    from 1(1) [OF this] neg show False by simp
  qed
qed

lemma limbs_loop_negative: "i < 0 \<Longrightarrow> limbs_loop rs i acc = None"
  using limbs_loop_nonneg [of rs i acc] by (cases "limbs_loop rs i acc") auto

subsection \<open>Single-byte encodings\<close>

lemma small_integer_bytes:
  "\<forall>n\<in>set [0..50].
     js_or (n + 38) 0 = n + 38 \<and> js_or (js_or (n + 38) 0) 128 = n + 166 \<and>
     js_or (n + 12) 64 = n + 76 \<and> js_or (js_or (n + 12) 64) 128 = n + 204"
  by code_simp

text \<open>
  C3 (as amended).  \<open>toArrayBuffer\<close> maps 0 to the byte 0x26, -0 to 0xA6, 1 to 0x27,
  -1 to 0xA7 and 50 to 0x7E (not 0x32), and 51 to the two bytes 0x08 0x33.  Every view
  with the single limb \<open>n\<close> in 0..50, the exponent 0 for \<open>n < 10\<close> and 1 otherwise, and
  either sign encodes to exactly one byte: \<open>n + 38\<close> up to 25 and \<open>n + 76\<close> above, plus
  128 for a negative sign.
\<close>

theorem small_integers_one_byte:
  assumes "0 \<le> n" and "n \<le> 50"
  shows "toArrayBuffer \<lparr>d = Some [n], e = Num (if n < 10 then 0 else 1), s = Num sg\<rparr>
           = [word_of_int ((if n \<le> 25 then n + 38 else n + 76) + (if sg < 0 then 128 else 0))]
       \<and> toArrayBuffer \<lparr>d = Some [0], e = Num 0, s = Num 1\<rparr> = [0x26]
       \<and> toArrayBuffer \<lparr>d = Some [0], e = Num 0, s = Num (- 1)\<rparr> = [0xA6]
       \<and> toArrayBuffer \<lparr>d = Some [1], e = Num 0, s = Num 1\<rparr> = [0x27]
       \<and> toArrayBuffer \<lparr>d = Some [1], e = Num 0, s = Num (- 1)\<rparr> = [0xA7]
       \<and> toArrayBuffer \<lparr>d = Some [50], e = Num 1, s = Num 1\<rparr> = [0x7E]
       \<and> toArrayBuffer \<lparr>d = Some [51], e = Num 1, s = Num 1\<rparr> = [0x08, 0x33]"
proof -
  from assms have "n \<in> set [0..50]" by simp
  with small_integer_bytes have b:
    "js_or (n + 38) 0 = n + 38" "js_or (js_or (n + 38) 0) 128 = n + 166"
    "js_or (n + 12) 64 = n + 76" "js_or (js_or (n + 12) 64) 128 = n + 204"
    by blast+
  have general: "toArrayBuffer \<lparr>d = Some [n], e = Num (if n < 10 then 0 else 1), s = Num sg\<rparr>
      = [word_of_int ((if n \<le> 25 then n + 38 else n + 76) + (if sg < 0 then 128 else 0))]"
    using assms b by (simp add: toArrayBuffer_def toArrayBuffer_bytes_def isSmallInteger_def)
  have c0: "toArrayBuffer \<lparr>d = Some [0], e = Num 0, s = Num 1\<rparr> = [0x26]" by code_simp
  have c1: "toArrayBuffer \<lparr>d = Some [0], e = Num 0, s = Num (- 1)\<rparr> = [0xA6]" by code_simp
  have c2: "toArrayBuffer \<lparr>d = Some [1], e = Num 0, s = Num 1\<rparr> = [0x27]" by code_simp
  have c3: "toArrayBuffer \<lparr>d = Some [1], e = Num 0, s = Num (- 1)\<rparr> = [0xA7]" by code_simp
  have c4: "toArrayBuffer \<lparr>d = Some [50], e = Num 1, s = Num 1\<rparr> = [0x7E]" by code_simp
  have c5: "toArrayBuffer \<lparr>d = Some [51], e = Num 1, s = Num 1\<rparr> = [0x08, 0x33]" by code_simp
  from general c0 c1 c2 c3 c4 c5 show ?thesis by (intro conjI)
qed

theorem small_integers_one_byte_witness:
  "toArrayBuffer \<lparr>d = Some [26], e = Num 1, s = Num (- 1)\<rparr> = [0xE6]"
  using small_integers_one_byte [of 26 "- 1"] by simp

theorem fifty_is_not_0x32:
  "toArrayBuffer \<lparr>d = Some [50], e = Num 1, s = Num 1\<rparr> \<noteq> [0x32]"
  by code_simp

subsection \<open>Buffers on which fromArrayBuffer does not return\<close>

text \<open>
  C6.  \<open>fromArrayBuffer\<close> throws on a value that is not an \<open>ArrayBuffer\<close> and returns
  \<open>null\<close> for the empty buffer, but on the four bytes 0x00 0x80 0x96 0x98 it never
  returns: the mantissa is the single digit \<open>ZEROS_SIGNIFIER\<close>, its count is read at
  index -1, and from there the index only moves away from 0.
\<close>

theorem fromArrayBuffer_not_total:
  "fromArrayBuffer Decimal (NotArrayBuffer str) = Some (Inl (Error (js ''Not an ArrayBuffer: '' @ str)))
   \<and> fromArrayBuffer Decimal (ArrayBuffer []) = Some (Inr None)
   \<and> fromArrayBuffer Decimal (ArrayBuffer [0x00, 0x80, 0x96, 0x98]) = None"
proof -
  have dl: "digits_loop [0, 128, 150, 152] (Suc 0) (Suc (Suc (Suc (Suc 0)))) [0] = [10000000]"
    by code_simp
  have "limbs_loop [10000000] 1 [] = limbs_loop [10000000] (- 1) []"
    by (subst limbs_loop.simps) (simp add: js_index_def push_repeats_def)
  then have ll: "limbs_loop [10000000] 1 [] = None"
    by (simp add: limbs_loop_negative)
  have "fromArrayBuffer Decimal (ArrayBuffer [0x00, 0x80, 0x96, 0x98]) = None"
    by (simp add: fromArrayBuffer_def read_fields_def Let_def dl ll js_and_def js_int32_def)
  then show ?thesis by (simp add: fromArrayBuffer_def)
qed

subsection \<open>convert as a carry over a list\<close>

lemma carry_list_Nil [simp]: "carry_list b [] = []"
  by (simp add: carry_list.simps)

lemma carry_list_small_base: "\<not> 2 \<le> b \<Longrightarrow> carry_list b xs = xs"
  by (induction b xs rule: carry_list.induct) (simp_all add: carry_list.simps)

lemma carry_list_no_carry:
  "\<not> (2 \<le> b \<and> y > b - 1) \<Longrightarrow> carry_list b (y # xs) = y # carry_list b xs"
  by (cases xs) (auto simp: carry_list.simps)

lemma carry_list_carry:
  "2 \<le> b \<Longrightarrow> y > b - 1 \<Longrightarrow>
     carry_list b (y # xs)
       = (y smod b) # carry_list b (case xs of [] \<Rightarrow> [js_int32 (y sdiv b)]
                                     | x # xs' \<Rightarrow> (x + js_int32 (y sdiv b)) # xs')"
  by (cases xs) (simp_all add: carry_list.simps)

lemma carry_loop_carry_list:
  "i \<le> length res \<Longrightarrow> carry_loop b i res = take i res @ carry_list b (drop i res)"
proof (induction b i res rule: carry_loop.induct)
  case (1 b i res)
  show ?case
  proof (cases "2 \<le> b \<and> i < length res")
    case False
    with 1(3) show ?thesis
      by (subst carry_loop.simps) (auto simp: carry_list_small_base)
  next
    case True
    then have b: "2 \<le> b" and i: "i < length res" by simp_all
    have dr: "drop i res = res ! i # drop (Suc i) res"
      using i by (simp add: Cons_nth_drop_Suc)
    have tk: "take (Suc i) res = take i res @ [res ! i]"
      using i by (simp add: take_Suc_conv_app_nth)
    show ?thesis
    proof (cases "res ! i > b - 1")
      case False
      with True have "carry_loop b i res = carry_loop b (i + 1) res"
        by (subst carry_loop.simps) simp
      also have "\<dots> = take (i + 1) res @ carry_list b (drop (i + 1) res)"
        using 1(2) True False i by simp
      also have "\<dots> = take i res @ carry_list b (drop i res)"
        using False by (simp add: dr tk carry_list_no_carry)
      finally show ?thesis .
    next
      case big: True
      define q where "q = js_int32 (res ! i sdiv b)"
      define res1 where "res1 = (if i + 1 < length res then res else res @ [0])"
      define res2 where "res2 = res1[i + 1 := res1 ! (i + 1) + js_int32 (res1 ! i sdiv b)]"
      define res3 where "res3 = res2[i := res2 ! i smod b]"
      have r1i: "res1 ! i = res ! i" using i by (simp add: res1_def nth_append)
      have l1: "i + 1 < length res1" using i by (auto simp: res1_def)
      have step: "carry_loop b i res = carry_loop b (i + 1) res3"
        using True big
        by (subst carry_loop.simps) (simp add: res1_def res2_def res3_def Let_def)
      have ih: "carry_loop b (i + 1) res3 = take (i + 1) res3 @ carry_list b (drop (i + 1) res3)"
        using 1(1) [OF True big res1_def res2_def res3_def] l1
        by (simp add: res3_def res2_def)
      have t3: "take (i + 1) res3 = take i res @ [res ! i smod b]"
        using l1 i r1i
        by (simp add: res3_def res2_def take_Suc_conv_app_nth res1_def nth_append)
      have d3: "drop (i + 1) res3
          = (case drop (Suc i) res of [] \<Rightarrow> [q] | x # xs' \<Rightarrow> (x + q) # xs')"
      proof (cases "i + 1 < length res")
        case True
        then have "drop (Suc i) res = res ! (Suc i) # drop (Suc (Suc i)) res"
          by (simp add: Cons_nth_drop_Suc)
        moreover have "drop (i + 1) res3 = (res ! (Suc i) + q) # drop (Suc (Suc i)) res"
          using True i
          by (simp add: res3_def res2_def res1_def q_def drop_update_cancel
              Cons_nth_drop_Suc [symmetric])
        ultimately show ?thesis by simp
      next
        case False
        with i have len: "length res = Suc i" by simp
        then have "drop (Suc i) res = []" by simp
        moreover have "drop (i + 1) res3 = [q]"
          using len False
          by (simp add: res3_def res2_def res1_def q_def list_update_append nth_append)
        ultimately show ?thesis by simp
      qed
      show ?thesis
        unfolding step ih t3 d3 q_def using b big
        by (simp add: dr carry_list_carry)
    qed
  qed
qed

lemma length_carry_list: "length seg \<le> length (carry_list b seg)"
proof (induction b seg rule: carry_list.induct)
  case (1 b)
  show ?case by simp
next
  case (2 b y)
  then show ?case by (simp add: carry_list.simps)
next
  case (3 b y x xs)
  then show ?case by (auto simp: carry_list.simps)
qed

lemma convert_carry_list:
  assumes "ri < length res"
  shows "convert val valBase res resBase ri
      = take ri res @ carry_list resBase
          ((res ! ri * valBase + val) # map (\<lambda>x. x * valBase) (drop (Suc ri) res))"
proof -
  let ?res1 = "take ri res @ map (\<lambda>x. x * valBase) (drop ri res)"
  let ?res2 = "?res1[ri := ?res1 ! ri + val]"
  have dr: "drop ri res = res ! ri # drop (Suc ri) res"
    using assms by (simp add: Cons_nth_drop_Suc)
  have r2: "?res2 = take ri res @ (res ! ri * valBase + val) # map (\<lambda>x. x * valBase) (drop (Suc ri) res)"
    using assms by (simp add: dr list_update_append nth_append)
  have "convert val valBase res resBase ri = carry_loop resBase ri ?res2"
    by (simp add: convert_def Let_def)
  also have "\<dots> = take ri ?res2 @ carry_list resBase (drop ri ?res2)"
    using assms by (intro carry_loop_carry_list) simp
  also have "\<dots> = take ri res @ carry_list resBase
          ((res ! ri * valBase + val) # map (\<lambda>x. x * valBase) (drop (Suc ri) res))"
    using assms unfolding r2 by simp
  finally show ?thesis .
qed

lemma convert_prefix:
  assumes "ri < length res"
  shows "take ri (convert val valBase res resBase ri) = take ri res"
    and "length res \<le> length (convert val valBase res resBase ri)"
proof -
  let ?seg = "(res ! ri * valBase + val) # map (\<lambda>x. x * valBase) (drop (Suc ri) res)"
  have c: "convert val valBase res resBase ri = take ri res @ carry_list resBase ?seg"
    by (rule convert_carry_list [OF assms])
  have len: "length (take ri res) = ri" using assms by simp
  show "take ri (convert val valBase res resBase ri) = take ri res"
    unfolding c using len by simp
  have "length ?seg = length res - ri" using assms by simp
  moreover have "length (convert val valBase res resBase ri) = ri + length (carry_list resBase ?seg)"
    unfolding c using len by simp
  ultimately show "length res \<le> length (convert val valBase res resBase ri)"
    using length_carry_list [of ?seg resBase] assms by linarith
qed

subsection \<open>The loop over the limbs\<close>

lemma mantissa_loop_end:
  "\<not> i < length digits \<Longrightarrow> mantissa_loop digits i bytes si = bytes"
  by (subst mantissa_loop.simps) simp

lemma mantissa_loop_literal:
  assumes "i < length digits" and "\<not> repeats_at digits i"
  shows "mantissa_loop digits i bytes si
      = mantissa_loop digits (i + 1) (convert (digits ! i) RADIX bytes 256 si) si"
  using assms unfolding repeats_at_def
  by (subst mantissa_loop.simps) (simp only: Let_def if_True if_False simp_thms)

lemma mantissa_loop_run:
  assumes "i < length digits" and "repeats_at digits i"
  shows "mantissa_loop digits i bytes si
      = mantissa_loop digits (i + count_repeats digits i (digits ! i) 3)
          (convert (int (count_repeats digits i (digits ! i) 3)) RADIX
             (convert (if digits ! i = ALL_ZEROS then ZEROS_SIGNIFIER else NINES_SIGNIFIER) RADIX
                bytes 256 si) 256 si) si"
  using assms unfolding repeats_at_def
  by (subst mantissa_loop.simps) (simp only: Let_def if_True if_False simp_thms)

lemma mantissa_loop_prefix:
  "si < length bytes \<Longrightarrow>
     take si (mantissa_loop digits i bytes si) = take si bytes
     \<and> length bytes \<le> length (mantissa_loop digits i bytes si)"
proof (induction digits i bytes si rule: mantissa_loop.induct)
  case (1 digits i bytes si)
  let ?nd = "digits ! i"
  show ?case
  proof (cases "i < length digits")
    case False
    then show ?thesis by (simp add: mantissa_loop_end)
  next
    case True
    show ?thesis
    proof (cases "repeats_at digits i")
      case False
      let ?b1 = "convert ?nd RADIX bytes 256 si"
      note eq = mantissa_loop_literal [OF True False, of bytes si]
      note p = convert_prefix [OF "1.prems", of ?nd RADIX 256]
      from p(2) "1.prems" have l: "si < length ?b1" by simp
      from False have nr: "\<not> ((?nd = ALL_ZEROS \<or> ?nd = ALL_NINES) \<and>
          digit_at digits (i + 1) = Some ?nd \<and> digit_at digits (i + 2) = Some ?nd)"
        by (simp add: repeats_at_def)
      from "1.IH"(2) [OF True refl refl nr l] p show ?thesis
        unfolding eq by simp
    next
      case rep: True
      let ?sig = "if ?nd = ALL_ZEROS then ZEROS_SIGNIFIER else NINES_SIGNIFIER"
      let ?n = "count_repeats digits i ?nd 3"
      let ?b1 = "convert ?sig RADIX bytes 256 si"
      let ?b2 = "convert (int ?n) RADIX ?b1 256 si"
      note eq = mantissa_loop_run [OF True rep, of bytes si]
      note p1 = convert_prefix [OF "1.prems", of ?sig RADIX 256]
      from p1(2) "1.prems" have l1: "si < length ?b1" by simp
      note p2 = convert_prefix [OF l1, of "int ?n" RADIX 256]
      from p2(2) l1 have l2: "si < length ?b2" by simp
      from rep have r: "(?nd = ALL_ZEROS \<or> ?nd = ALL_NINES) \<and>
          digit_at digits (i + 1) = Some ?nd \<and> digit_at digits (i + 2) = Some ?nd"
        by (simp add: repeats_at_def)
      from "1.IH"(1) [OF True refl refl r refl refl refl l2] p1 p2 show ?thesis
        unfolding eq by simp
    qed
  qed
qed

lemma digit_at_run:
  "digit_at (a # replicate n v @ [c]) j
     = (if j = 0 then Some a else if j \<le> n then Some v else if j = Suc n then Some c else None)"
  by (cases j) (auto simp: digit_at_def nth_append nth_Cons' )

lemma nth_run:
  "(a # replicate n v @ [c]) ! 0 = a" "0 < j \<Longrightarrow> j \<le> n \<Longrightarrow> (a # replicate n v @ [c]) ! j = v"
  "(a # replicate n v @ [c]) ! Suc n = c"
  by (auto simp: nth_append nth_Cons')

lemma count_repeats_run:
  assumes "c \<noteq> v" and "k \<le> n"
  shows "count_repeats (a # replicate n v @ [c]) 1 v k = n"
  using assms(2)
proof (induction "n - k" arbitrary: k)
  case 0
  then have "k = n" by simp
  then show ?case using assms(1)
    by (subst count_repeats.simps) (simp add: digit_at_run)
next
  case (Suc m)
  then have "k < n" by simp
  then have "count_repeats (a # replicate n v @ [c]) 1 v k
      = count_repeats (a # replicate n v @ [c]) 1 v (k + 1)"
    by (subst count_repeats.simps) (simp add: digit_at_run)
  also have "\<dots> = n" using Suc by (intro Suc(1)) simp_all
  finally show ?case .
qed

lemma mantissa_loop_one_run:
  assumes "3 \<le> n" and "v = ALL_ZEROS \<or> v = ALL_NINES"
    and "a \<noteq> ALL_ZEROS" "a \<noteq> ALL_NINES" "c \<noteq> ALL_ZEROS" "c \<noteq> ALL_NINES"
  shows "mantissa_loop (a # replicate n v @ [c]) 0 bytes si
     = convert c RADIX
         (convert (int n) RADIX
           (convert (if v = ALL_ZEROS then ZEROS_SIGNIFIER else NINES_SIGNIFIER) RADIX
             (convert a RADIX bytes 256 si) 256 si) 256 si) 256 si"
proof -
  let ?ds = "a # replicate n v @ [c]"
  have cv: "c \<noteq> v" using assms by auto
  have len: "length ?ds = n + 2" by simp
  have s0: "mantissa_loop ?ds 0 bytes si = mantissa_loop ?ds 1 (convert a RADIX bytes 256 si) si"
    using assms by (subst mantissa_loop.simps) (simp add: Let_def)
  have s1: "mantissa_loop ?ds 1 bs si
      = mantissa_loop ?ds (1 + n)
          (convert (int n) RADIX
             (convert (if v = ALL_ZEROS then ZEROS_SIGNIFIER else NINES_SIGNIFIER) RADIX bs 256 si)
             256 si) si" for bs
    using assms(1,2) count_repeats_run [OF cv, of 3 n a]
    by (subst mantissa_loop.simps) (auto simp: Let_def digit_at_run nth_append)
  have s2: "mantissa_loop ?ds (1 + n) bs si = mantissa_loop ?ds (2 + n) (convert c RADIX bs 256 si) si" for bs
    using assms(5,6) nth_run(3) [of a n v c]
    by (subst mantissa_loop.simps) (simp add: Let_def)
  have s3: "mantissa_loop ?ds (2 + n) bs si = bs" for bs
    by (subst mantissa_loop.simps) simp
  show ?thesis unfolding s0 s1 s2 s3 ..
qed

subsection \<open>Runs that are longer than a digit can count\<close>

lemma zero_run_bytes: "convert 1 10000002 (convert 10000002 10000002 (convert 10000000 10000002
     (convert 1 10000002 [0, 0] 256 (Suc 0)) 256 (Suc 0)) 256 (Suc 0)) 256 (Suc 0)
   = [0, 13, 130, 108, 126, 253, 67, 151, 107, 108]"
  by code_simp

text \<open>
  C1.  The round trip fails on a view the host can hold (its precision goes up to
  \<open>1e9\<close> digits): the limbs 1, then 10000002 limbs 0, then 1.  \<open>toArrayBuffer\<close> writes the
  run as \<open>ZEROS_SIGNIFIER\<close> followed by the count 10000002, which is \<open>RADIX\<close> itself and
  so not a digit in base \<open>RADIX\<close>: it carries into the signifier.  The ten bytes written
  decode to the limbs 1, 1, a different value, whose encoding is four other bytes.
\<close>

theorem long_zero_run_does_not_round_trip:
  "toArrayBuffer \<lparr>d = Some (1 # replicate 10000002 0 @ [1]), e = Num 0, s = Num 1\<rparr>
     = [0, 13, 130, 108, 126, 253, 67, 151, 107, 108]
   \<and> fromArrayBuffer default_host (ArrayBuffer [0, 13, 130, 108, 126, 253, 67, 151, 107, 108])
     = Some (Inr (Some \<lparr>d = Some [1, 1], e = Num 0, s = Num 1\<rparr>))
   \<and> toArrayBuffer \<lparr>d = Some [1, 1], e = Num 0, s = Num 1\<rparr> = [0, 131, 150, 152]"
proof -
  have "mantissa_loop (1 # replicate 10000002 0 @ [1]) 0 [0, 0] 1
      = [0, 13, 130, 108, 126, 253, 67, 151, 107, 108]"
    by (subst mantissa_loop_one_run) (simp_all add: zero_run_bytes)
  then have "toArrayBuffer \<lparr>d = Some (1 # replicate 10000002 0 @ [1]), e = Num 0, s = Num 1\<rparr>
     = [0, 13, 130, 108, 126, 253, 67, 151, 107, 108]"
    by (simp add: toArrayBuffer_def toArrayBuffer_bytes_def isSmallInteger_def)
  moreover have "fromArrayBuffer default_host (ArrayBuffer [0, 13, 130, 108, 126, 253, 67, 151, 107, 108])
     = Some (Inr (Some \<lparr>d = Some [1, 1], e = Num 0, s = Num 1\<rparr>))"
    by code_simp
  moreover have "toArrayBuffer \<lparr>d = Some [1, 1], e = Num 0, s = Num 1\<rparr> = [0, 131, 150, 152]"
    by code_simp
  ultimately show ?thesis by (intro conjI)
qed

lemma nines_run_bytes: "convert 5 10000002 (convert 10000002 10000002 (convert 10000001 10000002
     (convert 5 10000002 [0, 0] 256 (Suc 0)) 256 (Suc 0)) 256 (Suc 0)) 256 (Suc 0)
   = [0, 53, 84, 219, 179, 209, 220, 198, 66, 69, 1]"
  by code_simp

text \<open>
  C5.  A run of 10000002 limbs \<open>ALL_NINES\<close> is replaced by \<open>NINES_SIGNIFIER\<close> and the
  count 10000002, as for every run longer than two, but the count is \<open>RADIX\<close> and
  overflows its digit: the bytes written decode to the limbs 6, 0, 0, 5, so this run of
  three or more limbs does not round-trip.
\<close>

theorem long_nines_run_is_compressed_and_lost:
  "mantissa_loop (5 # replicate 10000002 ALL_NINES @ [5]) 0 [0, 0] 1
     = convert 5 RADIX (convert 10000002 RADIX (convert NINES_SIGNIFIER RADIX
         (convert 5 RADIX [0, 0] 256 1) 256 1) 256 1) 256 1
   \<and> toArrayBuffer \<lparr>d = Some (5 # replicate 10000002 ALL_NINES @ [5]), e = Num 0, s = Num 1\<rparr>
     = [0, 53, 84, 219, 179, 209, 220, 198, 66, 69, 1]
   \<and> fromArrayBuffer default_host (ArrayBuffer [0, 53, 84, 219, 179, 209, 220, 198, 66, 69, 1])
     = Some (Inr (Some \<lparr>d = Some [6, 0, 0, 5], e = Num 0, s = Num 1\<rparr>))"
proof -
  have m: "mantissa_loop (5 # replicate 10000002 ALL_NINES @ [5]) 0 [0, 0] 1
     = convert 5 RADIX (convert 10000002 RADIX (convert NINES_SIGNIFIER RADIX
         (convert 5 RADIX [0, 0] 256 1) 256 1) 256 1) 256 1"
    by (subst mantissa_loop_one_run) simp_all
  then have "toArrayBuffer \<lparr>d = Some (5 # replicate 10000002 ALL_NINES @ [5]), e = Num 0, s = Num 1\<rparr>
     = [0, 53, 84, 219, 179, 209, 220, 198, 66, 69, 1]"
    by (simp add: toArrayBuffer_def toArrayBuffer_bytes_def isSmallInteger_def nines_run_bytes)
  moreover have "fromArrayBuffer default_host (ArrayBuffer [0, 53, 84, 219, 179, 209, 220, 198, 66, 69, 1])
     = Some (Inr (Some \<lparr>d = Some [6, 0, 0, 5], e = Num 0, s = Num 1\<rparr>))"
    by code_simp
  ultimately show ?thesis using m by (intro conjI)
qed

subsection \<open>The first byte and the bytes of the exponent\<close>

lemma js_and_mask: "js_and (int n) BYTES_MASK = int (n mod 256)"
proof -
  have "js_int32 (int n) AND 255 = take_bit 8 (signed_take_bit 31 (int n))"
    by (simp add: js_int32_def take_bit_eq_mask mask_eq_exp_minus_1)
  also have "\<dots> = take_bit 8 (int n)"
    by (simp add: take_bit_signed_take_bit)
  also have "\<dots> = int (n mod 256)"
    by (simp add: take_bit_eq_mod zmod_int)
  finally show ?thesis
    by (simp add: js_and_def js_int32_def)
qed

lemma exponent_bytes_unfold:
  "exponent_bytes n = (if n = 0 then [] else int (n mod 256) # exponent_bytes (n div 256))"
  by (subst exponent_bytes.simps) (simp add: js_and_mask)

lemma exponent_bytes_value: "le_val 256 (exponent_bytes n) = int n"
proof (induction n rule: less_induct)
  case (less n)
  show ?case
  proof (cases "n = 0")
    case True
    then show ?thesis by (subst exponent_bytes_unfold) simp
  next
    case False
    then have "n div 256 < n" by simp
    from less [OF this] False show ?thesis
      by (subst exponent_bytes_unfold) (simp add: zmod_int zdiv_int)
  qed
qed

lemma exponent_bytes_canonical: "list_all (\<lambda>x. 0 \<le> x \<and> x < 256) (exponent_bytes n)"
proof (induction n rule: less_induct)
  case (less n)
  show ?case
  proof (cases "n = 0")
    case True
    then show ?thesis by (subst exponent_bytes_unfold) simp
  next
    case False
    then have "n div 256 < n" by simp
    from less [OF this] False show ?thesis
      by (subst exponent_bytes_unfold) simp
  qed
qed

lemma length_exponent_bytes:
  "256 ^ k \<le> n \<Longrightarrow> n < 256 ^ Suc k \<Longrightarrow> length (exponent_bytes n) = Suc k"
proof (induction k arbitrary: n)
  case 0
  then have "n \<noteq> 0" "n div 256 = 0" by simp_all
  then show ?case
    by (subst exponent_bytes_unfold, simp, subst exponent_bytes_unfold, simp)
next
  case (Suc k)
  then have "256 ^ k \<le> n div 256" "n div 256 < 256 ^ Suc k"
    by (simp_all add: less_mult_imp_div_less div_le_mono [of "256 * 256 ^ k" n 256, simplified])
  from Suc.IH [OF this] Suc.prems show ?case
    by (subst exponent_bytes_unfold) auto
qed

lemma first_byte_bits:
  "\<forall>fb0\<in>set [0, 128]. \<forall>neg\<in>set [False, True]. \<forall>low\<in>set [0..37].
     js_or (if neg then js_or fb0 64 else fb0) 0 = (if neg then js_or fb0 64 else fb0)
     \<and> 0 \<le> js_or (if neg then js_or fb0 64 else fb0) low
     \<and> js_or (if neg then js_or fb0 64 else fb0) low < 256
     \<and> (js_or (if neg then js_or fb0 64 else fb0) low AND 128 \<noteq> 0 \<longleftrightarrow> fb0 = 128)
     \<and> (js_or (if neg then js_or fb0 64 else fb0) low AND 64 \<noteq> 0 \<longleftrightarrow> neg)
     \<and> js_or (if neg then js_or fb0 64 else fb0) low AND 63 = low"
  by code_simp

lemma exponent_count_length:
  assumes "30 < m" and "m < 0x100000000000000"
  shows "length (exponent_bytes (nat m)) = exponent_count m"
proof -
  have l: "256 ^ k \<le> nat m \<Longrightarrow> nat m < 256 ^ Suc k
      \<Longrightarrow> length (exponent_bytes (nat m)) = Suc k" for k
    by (rule length_exponent_bytes)
  consider "m < 0x100" | "0x100 \<le> m" "m < 0x10000" | "0x10000 \<le> m" "m < 0x1000000"
    | "0x1000000 \<le> m" "m < 0x100000000" | "0x100000000 \<le> m" "m < 0x10000000000"
    | "0x10000000000 \<le> m" "m < 0x1000000000000" | "0x1000000000000 \<le> m"
    by linarith
  then show ?thesis
  proof cases
    case 1
    with assms l [of 0] show ?thesis by (simp add: exponent_count_def)
  next
    case 2
    with assms l [of 1] show ?thesis by (simp add: exponent_count_def)
  next
    case 3
    with assms l [of 2] show ?thesis by (simp add: exponent_count_def)
  next
    case 4
    with assms l [of 3] show ?thesis by (simp add: exponent_count_def)
  next
    case 5
    with assms l [of 4] show ?thesis by (simp add: exponent_count_def)
  next
    case 6
    with assms l [of 5] show ?thesis by (simp add: exponent_count_def)
  next
    case 7
    with assms l [of 6] show ?thesis by (simp add: exponent_count_def)
  qed
qed

lemma exponent_count_range: "1 \<le> exponent_count m \<and> exponent_count m \<le> 7"
  by (simp add: exponent_count_def)

lemma exponent_header_eq:
  "exponent_header fb0 (Num ex)
     = (if \<bar>ex\<bar> > 30
        then (js_or (if ex < 0 then js_or fb0 64 else fb0) (int (exponent_count \<bar>ex\<bar>))
                # exponent_bytes (nat \<bar>ex\<bar>), exponent_count \<bar>ex\<bar>)
        else ([if ex \<noteq> 0 then js_or (if ex < 0 then js_or fb0 64 else fb0) (\<bar>ex\<bar> + 7)
               else (if ex < 0 then js_or fb0 64 else fb0)], 0))"
  by (auto simp: Let_def exponent_count_def abs_if)

lemma uint_byte: "0 \<le> v \<Longrightarrow> v < 256 \<Longrightarrow> uint (word_of_int v :: 8 word) = v"
  by (simp add: uint_word_of_int take_bit_eq_mod)

lemma map_uint_bytes:
  "list_all (\<lambda>x. 0 \<le> x \<and> x < 256) xs \<Longrightarrow> map uint (map word_of_int xs :: 8 word list) = xs"
  by (induction xs) (simp_all add: uint_byte)

lemma take_tl_map: "take n (tl (map f xs)) = map f (take n (tl xs))"
  by (cases xs) (simp_all add: take_map)

text \<open>
  C4 (as amended).  In the general case, for a view with limbs, a numeric sign and an
  exponent of magnitude below \<open>2^56\<close>: bit 7 of the first byte is set iff the sign is
  negative and bit 6 iff the exponent is negative; the low six bits are 0 when the
  exponent is 0, \<open>|e| + 7\<close> when \<open>1 \<le> |e| \<le> 30\<close>, and otherwise a count \<open>n\<close> in 1..7, and
  then the next \<open>n\<close> bytes are the magnitude of the exponent, least significant byte
  first, followed by at least one byte of mantissa.
\<close>

theorem general_case_first_byte:
  assumes "d x = Some digits" and "\<not> isSmallInteger digits (e x)"
    and "e x = Num ex" and "s x = Num sg" and "\<bar>ex\<bar> < 0x100000000000000"
  shows "(uint (hd (toArrayBuffer x)) AND 128 \<noteq> 0 \<longleftrightarrow> sg < 0)
       \<and> (uint (hd (toArrayBuffer x)) AND 64 \<noteq> 0 \<longleftrightarrow> ex < 0)
       \<and> (ex = 0 \<longrightarrow> uint (hd (toArrayBuffer x)) AND 63 = 0)
       \<and> (1 \<le> \<bar>ex\<bar> \<and> \<bar>ex\<bar> \<le> 30 \<longrightarrow> uint (hd (toArrayBuffer x)) AND 63 = \<bar>ex\<bar> + 7)
       \<and> (30 < \<bar>ex\<bar> \<longrightarrow>
            1 \<le> uint (hd (toArrayBuffer x)) AND 63 \<and> uint (hd (toArrayBuffer x)) AND 63 \<le> 7
            \<and> nat (uint (hd (toArrayBuffer x)) AND 63) + 2 \<le> length (toArrayBuffer x)
            \<and> le_val 256 (map uint (take (nat (uint (hd (toArrayBuffer x)) AND 63))
                  (tl (toArrayBuffer x)))) = \<bar>ex\<bar>)"
proof -
  define fb0 :: int where "fb0 = (if sg < 0 then 128 else 0)"
  define fb1 where "fb1 = (if ex < 0 then js_or fb0 64 else fb0)"
  define low :: int where
    "low = (if \<bar>ex\<bar> > 30 then int (exponent_count \<bar>ex\<bar>) else if ex \<noteq> 0 then \<bar>ex\<bar> + 7 else 0)"
  define ebytes where "ebytes = (if \<bar>ex\<bar> > 30 then exponent_bytes (nat \<bar>ex\<bar>) else [])"
  define cnt where "cnt = (if \<bar>ex\<bar> > 30 then exponent_count \<bar>ex\<bar> else 0)"
  define fb where "fb = js_or fb1 low"
  have low_range: "low \<in> set [0..37]"
    using exponent_count_range [of "\<bar>ex\<bar>"] by (auto simp: low_def)
  have m1: "fb0 \<in> set [0, 128]" and m2: "(ex < 0) \<in> set [False, True]"
    by (auto simp: fb0_def)
  note b = first_byte_bits [rule_format, OF m1 m2 low_range, folded fb1_def, folded fb_def]
  have bits: "js_or fb1 0 = fb1" "0 \<le> fb" "fb < 256" "fb AND 128 \<noteq> 0 \<longleftrightarrow> fb0 = 128"
    "fb AND 64 \<noteq> 0 \<longleftrightarrow> ex < 0" "fb AND 63 = low"
    using b by (simp_all only: simp_thms)
  have hdr: "exponent_header fb0 (Num ex) = (fb # ebytes, cnt)"
    unfolding exponent_header_eq using bits(1)
    by (auto simp: fb_def fb1_def low_def ebytes_def cnt_def)
  have len: "length ebytes = cnt"
    using exponent_count_length [of "\<bar>ex\<bar>"] assms(5) by (simp add: ebytes_def cnt_def)
  let ?bytes = "mantissa_loop digits 0 ((fb # ebytes) @ [0]) (cnt + 1)"
  have tb: "toArrayBuffer x = map word_of_int ?bytes"
    using assms(1-4) hdr
    by (simp add: toArrayBuffer_def toArrayBuffer_bytes_def fb0_def)
  have "cnt + 1 < length ((fb # ebytes) @ [0])" using len by simp
  from mantissa_loop_prefix [OF this, of digits 0] len
  have pre: "take (cnt + 1) ?bytes = fb # ebytes" and l: "cnt + 2 \<le> length ?bytes"
    by simp_all
  from pre l have h: "hd ?bytes = fb"
    by (metis hd_take list.sel(1) add_gr_0 zero_less_one)
  have ne: "?bytes \<noteq> []" using l by auto
  have hd: "uint (hd (toArrayBuffer x)) = fb"
    unfolding tb using ne h bits(2,3) by (simp add: hd_map uint_byte)
  have tl: "take cnt (tl ?bytes) = ebytes"
    using pre by (cases ?bytes) simp_all
  have "map uint (take cnt (tl (toArrayBuffer x))) = map uint (map word_of_int ebytes :: 8 word list)"
    unfolding tb take_tl_map tl ..
  also have "\<dots> = ebytes"
    using exponent_bytes_canonical [of "nat \<bar>ex\<bar>"] by (intro map_uint_bytes) (simp add: ebytes_def)
  finally have ev: "map uint (take cnt (tl (toArrayBuffer x))) = ebytes" .
  have lenb: "length (toArrayBuffer x) = length ?bytes" by (simp add: tb)
  have A: "fb AND 128 \<noteq> 0 \<longleftrightarrow> sg < 0"
    using bits(4) by (simp add: fb0_def)
  have C: "ex = 0 \<longrightarrow> fb AND 63 = 0"
    using bits(6) by (simp add: low_def)
  have D: "1 \<le> \<bar>ex\<bar> \<and> \<bar>ex\<bar> \<le> 30 \<longrightarrow> fb AND 63 = \<bar>ex\<bar> + 7"
    using bits(6) by (auto simp: low_def)
  have E: "1 \<le> fb AND 63 \<and> fb AND 63 \<le> 7
            \<and> nat (fb AND 63) + 2 \<le> length (toArrayBuffer x)
            \<and> le_val 256 (map uint (take (nat (fb AND 63)) (tl (toArrayBuffer x)))) = \<bar>ex\<bar>"
    if big: "30 < \<bar>ex\<bar>"
  proof -
    from big bits(6) have f63: "fb AND 63 = int cnt" and c: "cnt = exponent_count \<bar>ex\<bar>"
      and eb: "ebytes = exponent_bytes (nat \<bar>ex\<bar>)"
      by (simp_all add: low_def cnt_def ebytes_def)
    have n: "nat (fb AND 63) = cnt" unfolding f63 by simp
    have v: "le_val 256 ebytes = \<bar>ex\<bar>"
      unfolding eb exponent_bytes_value by simp
    show ?thesis
      unfolding n ev v lenb using l exponent_count_range [of "\<bar>ex\<bar>"] f63 c by simp
  qed
  from A bits(5) C D E show ?thesis
    unfolding hd by blast
qed

theorem general_case_first_byte_witness:
  "(uint (hd (toArrayBuffer \<lparr>d = Some [5, 5000000], e = Num (- 1000), s = Num (- 1)\<rparr>)) AND 128 \<noteq> 0)
   \<and> (uint (hd (toArrayBuffer \<lparr>d = Some [5, 5000000], e = Num (- 1000), s = Num (- 1)\<rparr>)) AND 64 \<noteq> 0)
   \<and> 1 \<le> uint (hd (toArrayBuffer \<lparr>d = Some [5, 5000000], e = Num (- 1000), s = Num (- 1)\<rparr>)) AND 63
   \<and> uint (hd (toArrayBuffer \<lparr>d = Some [5, 5000000], e = Num (- 1000), s = Num (- 1)\<rparr>)) AND 63 \<le> 7
   \<and> le_val 256 (map uint (take
        (nat (uint (hd (toArrayBuffer \<lparr>d = Some [5, 5000000], e = Num (- 1000), s = Num (- 1)\<rparr>)) AND 63))
        (tl (toArrayBuffer \<lparr>d = Some [5, 5000000], e = Num (- 1000), s = Num (- 1)\<rparr>)))) = 1000"
  using general_case_first_byte
    [of "\<lparr>d = Some [5, 5000000], e = Num (- 1000), s = Num (- 1)\<rparr>" "[5, 5000000]" "- 1000" "- 1"]
  by (simp add: isSmallInteger_def)

text \<open>
  With the exponent 0 the low six bits are 0, not \<open>0 + 7\<close>: the limbs 5, 5000000 with
  the exponent 0 (the value 5.5) are written as the first byte 0x00 and four bytes of
  mantissa.
\<close>

theorem exponent_zero_leaves_low_bits_clear:
  "\<not> isSmallInteger [5, 5000000] (Num 0)
   \<and> toArrayBuffer \<lparr>d = Some [5, 5000000], e = Num 0, s = Num 1\<rparr> = [0x00, 0xCA, 0x3B, 0x47, 0x03]
   \<and> uint (hd (toArrayBuffer \<lparr>d = Some [5, 5000000], e = Num 0, s = Num 1\<rparr>)) AND 63 = 0
   \<and> uint (hd (toArrayBuffer \<lparr>d = Some [5, 5000000], e = Num 0, s = Num 1\<rparr>)) AND 63 \<noteq> \<bar>0\<bar> + 7"
  by code_simp

subsection \<open>The round trip of views whose repeat counts are digits\<close>

text \<open>
  One call of \<open>convert\<close> on digits below \<open>resBase\<close> multiplies the number they stand for
  by \<open>valBase\<close> and adds \<open>val\<close>, and leaves digits below \<open>resBase\<close>; the quotients it
  hands on stay within 32 bits for both pairs of bases of the serializer.
\<close>

lemma carry_list_props:
  "2 \<le> b \<Longrightarrow> (M + Q) div b \<le> Q \<Longrightarrow> Q < 2147483648 \<Longrightarrow> 0 \<le> M \<Longrightarrow> 0 \<le> Q
     \<Longrightarrow> carry_bounded M Q seg \<Longrightarrow>
     list_all (\<lambda>x. 0 \<le> x \<and> x < b) (carry_list b seg)
     \<and> le_val b (carry_list b seg) = le_val b seg
     \<and> length seg \<le> length (carry_list b seg)
     \<and> (seg \<noteq> [] \<and> 0 < last seg \<longrightarrow> 0 < last (carry_list b seg))"
proof (induction b seg rule: carry_list.induct)
  case (1 b)
  show ?case by simp
next
  case (2 b y)
  from "2.prems"(6) have y: "0 \<le> y" "y \<le> M + Q" by (simp_all add: carry_bounded_def)
  show ?case
  proof (cases "y > b - 1")
    case False
    with y show ?thesis by (simp add: carry_list_no_carry)
  next
    case True
    note f = carry_step_facts [OF "2.prems"(1) True y(2) "2.prems"(2) "2.prems"(3)]
    have bd: "carry_bounded M Q [js_int32 (y sdiv b)]"
      using f "2.prems" by (simp add: carry_bounded_def)
    from "2.IH" [OF _ "2.prems"(1-5) bd] "2.prems"(1) True
    have ih: "list_all (\<lambda>x. 0 \<le> x \<and> x < b) (carry_list b [y div b])"
      "le_val b (carry_list b [y div b]) = y div b"
      "1 \<le> length (carry_list b [y div b])"
      "0 < last (carry_list b [y div b])"
      using f by simp_all
    from ih(3) have ne: "carry_list b [y div b] \<noteq> []" by auto
    have "carry_list b [y] = (y mod b) # carry_list b [y div b]"
      using "2.prems"(1) True f by (simp add: carry_list_carry)
    with ih ne f show ?thesis by simp
  qed
next
  case (3 b y x xs)
  from "3.prems"(6) have y: "0 \<le> y" "y \<le> M + Q" and x: "0 \<le> x" "x \<le> M"
    and xs: "list_all (\<lambda>x. 0 \<le> x \<and> x \<le> M) xs"
    by (simp_all add: carry_bounded_def)
  show ?case
  proof (cases "y > b - 1")
    case False
    have bd: "carry_bounded M Q (x # xs)"
      using x xs "3.prems" by (simp add: carry_bounded_def)
    from "3.IH"(2) [OF _ "3.prems"(1-5) bd] False
    have ih: "list_all (\<lambda>x. 0 \<le> x \<and> x < b) (carry_list b (x # xs))"
      "le_val b (carry_list b (x # xs)) = le_val b (x # xs)"
      "length (x # xs) \<le> length (carry_list b (x # xs))"
      "0 < last (x # xs) \<longrightarrow> 0 < last (carry_list b (x # xs))"
      by simp_all
    from ih(3) have ne: "carry_list b (x # xs) \<noteq> []" by auto
    have "carry_list b (y # x # xs) = y # carry_list b (x # xs)"
      using False by (simp add: carry_list_no_carry)
    with ih ne y False show ?thesis by simp
  next
    case True
    note f = carry_step_facts [OF "3.prems"(1) True y(2) "3.prems"(2) "3.prems"(3)]
    have bd: "carry_bounded M Q ((x + js_int32 (y sdiv b)) # xs)"
      using f x xs by (simp add: carry_bounded_def)
    from "3.IH"(1) [OF _ "3.prems"(1-5) bd] "3.prems"(1) True
    have ih: "list_all (\<lambda>x. 0 \<le> x \<and> x < b) (carry_list b ((x + y div b) # xs))"
      "le_val b (carry_list b ((x + y div b) # xs)) = le_val b ((x + y div b) # xs)"
      "length ((x + y div b) # xs) \<le> length (carry_list b ((x + y div b) # xs))"
      "0 < last ((x + y div b) # xs) \<longrightarrow> 0 < last (carry_list b ((x + y div b) # xs))"
      using f by simp_all
    from ih(3) have ne: "carry_list b ((x + y div b) # xs) \<noteq> []" by auto
    have eq: "carry_list b (y # x # xs) = (y mod b) # carry_list b ((x + y div b) # xs)"
      using "3.prems"(1) True f by (simp add: carry_list_carry)
    have val: "le_val b (carry_list b (y # x # xs)) = le_val b (y # x # xs)"
      unfolding eq using ih(2) by (simp add: algebra_simps) 
    have lst: "0 < last (y # x # xs) \<longrightarrow> 0 < last ((x + y div b) # xs)"
      using f(3) x by (cases xs) auto
    from ih ne f lst show ?thesis unfolding eq using val [unfolded eq] by simp
  qed
qed
lemma le_val_map_times: "le_val b (map (\<lambda>x. x * v) xs) = le_val b xs * v"
  by (induction xs) (simp_all add: algebra_simps)

lemma convert_props:
  assumes ri: "ri < length res"
    and canon: "list_all (\<lambda>x. 0 \<le> x \<and> x < resBase) (drop ri res)"
    and base: "2 \<le> resBase" "0 \<le> valBase"
    and v: "0 \<le> val" "val \<le> 2147483647"
    and bound: "((resBase - 1) * valBase + 2147483647) div resBase \<le> 2147483647"
  shows "take ri (convert val valBase res resBase ri) = take ri res"
    and "list_all (\<lambda>x. 0 \<le> x \<and> x < resBase) (drop ri (convert val valBase res resBase ri))"
    and "le_val resBase (drop ri (convert val valBase res resBase ri))
           = le_val resBase (drop ri res) * valBase + val"
    and "length res \<le> length (convert val valBase res resBase ri)"
    and "0 < valBase \<Longrightarrow> 0 < last res \<Longrightarrow> 0 < last (convert val valBase res resBase ri)"
    and "drop ri res = [0] \<Longrightarrow> val < resBase \<Longrightarrow> drop ri (convert val valBase res resBase ri) = [val]"
    and "Suc ri = length res \<Longrightarrow> 0 < val \<Longrightarrow> 0 < last (convert val valBase res resBase ri)"
proof -
  let ?seg = "(res ! ri * valBase + val) # map (\<lambda>x. x * valBase) (drop (Suc ri) res)"
  let ?M = "(resBase - 1) * valBase"
  have dr: "drop ri res = res ! ri # drop (Suc ri) res"
    using ri by (simp add: Cons_nth_drop_Suc)
  have c: "convert val valBase res resBase ri = take ri res @ carry_list resBase ?seg"
    by (rule convert_carry_list [OF ri])
  have hd: "0 \<le> res ! ri" "res ! ri < resBase"
    and tl: "list_all (\<lambda>x. 0 \<le> x \<and> x < resBase) (drop (Suc ri) res)"
    using canon unfolding dr by simp_all
  have mul: "0 \<le> x \<and> x < resBase \<Longrightarrow> 0 \<le> x * valBase \<and> x * valBase \<le> ?M" for x
    using base by (simp add: mult_right_mono)
  have hd2: "0 \<le> res ! ri * valBase + val" "res ! ri * valBase + val \<le> ?M + 2147483647"
    using mul [of "res ! ri"] hd v by linarith+
  have bd: "carry_bounded ?M 2147483647 ?seg"
    using hd2 tl mul by (auto simp: carry_bounded_def list_all_iff)
  have M0: "0 \<le> ?M" using base by simp
  note p = carry_list_props [OF base(1) bound _ M0 _ bd, simplified]
  have len: "length (take ri res) = ri" using ri by simp
  show "take ri (convert val valBase res resBase ri) = take ri res"
    unfolding c using len by simp
  have d: "drop ri (convert val valBase res resBase ri) = carry_list resBase ?seg"
    unfolding c using len by simp
  show "list_all (\<lambda>x. 0 \<le> x \<and> x < resBase) (drop ri (convert val valBase res resBase ri))"
    unfolding d using p by simp
  show "le_val resBase (drop ri (convert val valBase res resBase ri))
           = le_val resBase (drop ri res) * valBase + val"
    unfolding d using p by (simp add: dr le_val_map_times algebra_simps)
  have l: "length ?seg \<le> length (carry_list resBase ?seg)" using p by simp
  have ls: "length ?seg = length res - ri" using ri by simp
  have "length (convert val valBase res resBase ri) = ri + length (carry_list resBase ?seg)"
    unfolding c using len by simp
  with l ls ri show "length res \<le> length (convert val valBase res resBase ri)"
    by linarith
  have ne: "carry_list resBase ?seg \<noteq> []" using l by auto
  show "0 < last (convert val valBase res resBase ri)" if vb: "0 < valBase" and lst: "0 < last res"
  proof -
    have "last res = last (drop ri res)" using ri by simp
    with lst have "0 < last (res ! ri # drop (Suc ri) res)" using dr by simp
    then have "0 < last ?seg"
      using vb v hd by (cases "drop (Suc ri) res = []") (auto simp: last_map add_pos_nonneg)
    with p have "0 < last (carry_list resBase ?seg)" by simp
    then show ?thesis unfolding c using ne by simp
  qed
  show "drop ri (convert val valBase res resBase ri) = [val]" if "drop ri res = [0]" "val < resBase"
  proof -
    from that(1) dr have "res ! ri = 0" "drop (Suc ri) res = []" by simp_all
    then show ?thesis unfolding d using that(2) by (simp add: carry_list_no_carry)
  qed
  show "0 < last (convert val valBase res resBase ri)" if "Suc ri = length res" "0 < val"
  proof -
    from that(1) have "drop (Suc ri) res = []" by simp
    then have "0 < last ?seg"
      using that(2) hd base by (simp add: add_nonneg_pos)
    with p have "0 < last (carry_list resBase ?seg)" by simp
    then show ?thesis unfolding c using ne by simp
  qed
qed

lemma mantissa_loop_tokens:
  "mantissa_loop digits i bytes si
     = foldl (\<lambda>b t. convert t RADIX b 256 si) bytes (tokens_from digits i)"
proof (induction digits i arbitrary: bytes rule: tokens_from.induct)
  case (1 digits i)
  show ?case
  proof (cases "i < length digits")
    case False
    then show ?thesis
      by (subst tokens_from.simps) (simp add: mantissa_loop_end)
  next
    case True
    show ?thesis
    proof (cases "repeats_at digits i")
      case False
      show ?thesis
        unfolding mantissa_loop_literal [OF True False] "1.IH"(2) [OF True False]
        using True False by (subst (2) tokens_from.simps) simp
    next
      case rep: True
      show ?thesis
        unfolding mantissa_loop_run [OF True rep] "1.IH"(1) [OF True rep]
        using True rep by (subst (2) tokens_from.simps) simp
    qed
  qed
qed

lemma le_val_append: "le_val b (xs @ ys) = le_val b xs + b ^ length xs * le_val b ys"
  by (induction xs) (simp_all add: algebra_simps)

lemma foldl_convert:
  assumes "ri < length res"
    and "list_all (\<lambda>x. 0 \<le> x \<and> x < resBase) (drop ri res)"
    and "2 \<le> resBase" "0 < valBase"
    and "list_all (\<lambda>t. 0 \<le> t \<and> t \<le> 2147483647) ts"
    and "((resBase - 1) * valBase + 2147483647) div resBase \<le> 2147483647"
  shows "take ri (foldl (\<lambda>r t. convert t valBase r resBase ri) res ts) = take ri res
       \<and> list_all (\<lambda>x. 0 \<le> x \<and> x < resBase)
           (drop ri (foldl (\<lambda>r t. convert t valBase r resBase ri) res ts))
       \<and> le_val resBase (drop ri (foldl (\<lambda>r t. convert t valBase r resBase ri) res ts))
           = le_val resBase (drop ri res) * valBase ^ length ts + le_val valBase (rev ts)
       \<and> length res \<le> length (foldl (\<lambda>r t. convert t valBase r resBase ri) res ts)
       \<and> (0 < last res \<or> (Suc ri = length res \<and> ts \<noteq> [] \<and> 0 < hd ts)
            \<longrightarrow> 0 < last (foldl (\<lambda>r t. convert t valBase r resBase ri) res ts))"
  using assms(1,2,5)
proof (induction ts arbitrary: res)
  case Nil
  then show ?case by simp
next
  case (Cons t ts)
  let ?r = "convert t valBase res resBase ri"
  from Cons.prems(3) have t: "0 \<le> t" "t \<le> 2147483647"
    and ts: "list_all (\<lambda>t. 0 \<le> t \<and> t \<le> 2147483647) ts"
    by simp_all
  from assms(4) have vb: "0 \<le> valBase" by simp
  note p = convert_props [OF Cons.prems(1) Cons.prems(2) assms(3) vb t assms(6)]
  from p(4) Cons.prems(1) have l: "ri < length ?r" by simp
  note ih = Cons.IH [OF l p(2) ts]
  have last: "0 < last ?r" if "0 < last res \<or> (Suc ri = length res \<and> 0 < t)"
    using that p(5) [OF assms(4)] p(7) by blast
  have val: "le_val resBase (drop ri ?r) * valBase ^ length ts + le_val valBase (rev ts)
      = le_val resBase (drop ri res) * valBase ^ length (t # ts) + le_val valBase (rev (t # ts))"
    unfolding p(3) by (simp add: le_val_append algebra_simps)
  from ih p(1) p(4) last val show ?case by simp
qed

lemma le_val_bounds:
  assumes "0 < b" and "list_all (\<lambda>x. 0 \<le> x \<and> x < b) xs"
  shows "0 \<le> le_val b xs \<and> le_val b xs < b ^ length xs"
  using assms(2)
proof (induction xs)
  case Nil
  show ?case by simp
next
  case (Cons x xs)
  then have x: "0 \<le> x" "x \<le> b - 1" and v: "0 \<le> le_val b xs" "le_val b xs \<le> b ^ length xs - 1"
    by simp_all
  from v(2) assms(1) have "b * le_val b xs \<le> b * (b ^ length xs - 1)"
    by (intro mult_left_mono) simp_all
  then have "x + b * le_val b xs \<le> b - 1 + b * b ^ length xs - b"
    using x by (simp add: algebra_simps)
  moreover have "0 \<le> b * le_val b xs" using v(1) assms(1) by simp
  ultimately show ?case using x by simp
qed

lemma le_val_lower:
  assumes "0 < b" and "list_all (\<lambda>x. 0 \<le> x \<and> x < b) xs" and "xs \<noteq> []" and "0 < last xs"
  shows "b ^ (length xs - 1) \<le> le_val b xs"
  using assms(2-4)
proof (induction xs)
  case Nil
  then show ?case by simp
next
  case (Cons x xs)
  show ?case
  proof (cases "xs = []")
    case True
    with Cons.prems show ?thesis by simp
  next
    case False
    with Cons have ih: "b ^ (length xs - 1) \<le> le_val b xs" and x: "0 \<le> x" by simp_all
    from ih assms(1) have "b * b ^ (length xs - 1) \<le> b * le_val b xs"
      by (intro mult_left_mono) simp_all
    moreover have "b * b ^ (length xs - 1) = b ^ length xs"
      using False by (cases xs) simp_all
    ultimately show ?thesis using x by simp
  qed
qed

lemma canonical_same_length:
  assumes "0 < b" and "length xs = length ys"
    and "list_all (\<lambda>x. 0 \<le> x \<and> x < b) xs" and "list_all (\<lambda>x. 0 \<le> x \<and> x < b) ys"
    and "le_val b xs = le_val b ys"
  shows "xs = ys"
  using assms(2-5)
proof (induction xs ys rule: list_induct2)
  case Nil
  show ?case by simp
next
  case (Cons x xs y ys)
  then have x: "0 \<le> x" "x < b" and y: "0 \<le> y" "y < b"
    and eq: "x + b * le_val b xs = y + b * le_val b ys"
    by simp_all
  from eq have "(x + b * le_val b xs) mod b = (y + b * le_val b ys) mod b" by simp
  with x y have xy: "x = y" by simp
  with eq assms(1) have "le_val b xs = le_val b ys" by simp
  with Cons xy show ?case by simp
qed

lemma canonical_unique:
  assumes "1 < b"
    and "list_all (\<lambda>x. 0 \<le> x \<and> x < b) xs" and "list_all (\<lambda>x. 0 \<le> x \<and> x < b) ys"
    and "xs \<noteq> []" "0 < last xs" "ys \<noteq> []" "0 < last ys"
    and "le_val b xs = le_val b ys"
  shows "xs = ys"
proof -
  from assms(1) have b0: "0 < b" by simp
  have len: "length us \<le> length vs"
    if "list_all (\<lambda>x. 0 \<le> x \<and> x < b) us" "list_all (\<lambda>x. 0 \<le> x \<and> x < b) vs"
      "us \<noteq> []" "0 < last us" "le_val b us = le_val b vs" for us vs
  proof -
    have "b ^ (length us - 1) \<le> le_val b us" by (rule le_val_lower [OF b0 that(1,3,4)])
    also have "\<dots> < b ^ length vs" using le_val_bounds [OF b0 that(2)] that(5) by simp
    finally have "length us - 1 < length vs"
      using assms(1) by (simp add: power_strict_increasing_iff)
    then show ?thesis using that(3) by (cases us) simp_all
  qed
  have "length xs = length ys"
    using len [OF assms(2,3,4,5,8)] len [OF assms(3,2,6,7) assms(8) [symmetric]] by simp
  then show ?thesis by (rule canonical_same_length [OF b0 _ assms(2,3,8)])
qed

lemma digits_loop_foldl:
  "i \<le> length bytes \<Longrightarrow>
     digits_loop bytes idx i acc
       = foldl (\<lambda>r b. convert b 256 r RADIX 0) acc
           (rev (map uint (take (i - idx) (drop idx bytes))))"
proof (induction bytes idx i acc rule: digits_loop.induct)
  case (1 bytes idx i acc)
  show ?case
  proof (cases "i > idx")
    case False
    then show ?thesis by (subst digits_loop.simps) simp
  next
    case True
    define n where "n = i - 1 - idx"
    from True have n: "i - idx = Suc n" "i - 1 - idx = n" "idx + n = i - 1" "i - Suc idx = n"
      by (simp_all add: n_def)
    from True "1.prems" have lt: "n < length (drop idx bytes)" by (simp add: n_def)
    have tk: "take (Suc n) (drop idx bytes) = take n (drop idx bytes) @ [bytes ! (i - 1)]"
      using lt n(3) by (simp add: take_Suc_conv_app_nth)
    from "1.IH" [OF True] "1.prems" True
    have "digits_loop bytes idx (i - 1) (convert (uint (bytes ! (i - 1))) 256 acc RADIX 0)
        = foldl (\<lambda>r b. convert b 256 r RADIX 0) (convert (uint (bytes ! (i - 1))) 256 acc RADIX 0)
            (rev (map uint (take n (drop idx bytes))))"
      by (simp add: n)
    then show ?thesis
      using True by (subst digits_loop.simps) (simp add: n(1) tk)
  qed
qed

lemma count_repeats_all:
  "\<forall>j<k. digit_at digits (i + j) = Some v \<Longrightarrow>
     \<forall>j<count_repeats digits i v k. digit_at digits (i + j) = Some v"
proof (induction digits i v k rule: count_repeats.induct)
  case (1 digits i v k)
  show ?case
  proof (cases "digit_at digits (i + k) = Some v")
    case False
    with "1.prems" show ?thesis by (subst count_repeats.simps) simp
  next
    case True
    with "1.prems" have "\<forall>j<k + 1. digit_at digits (i + j) = Some v"
      by (auto simp: less_Suc_eq)
    from "1.IH" [OF True this] True show ?thesis
      by (subst count_repeats.simps) simp
  qed
qed

lemma run_is_replicate:
  assumes "\<forall>j<n. digit_at digits (i + j) = Some v" and "0 < n"
  shows "i + n \<le> length digits" and "drop i digits = replicate n v @ drop (i + n) digits"
proof -
  from assms(2) have "n - 1 < n" by simp
  with assms(1) have "digit_at digits (i + (n - 1)) = Some v" by blast
  then show le: "i + n \<le> length digits"
    using assms(2) by (simp add: digit_at_def split: if_splits)
  have "take n (drop i digits) = replicate n v"
  proof (rule nth_equalityI)
    show "length (take n (drop i digits)) = length (replicate n v)" using le by simp
  next
    fix j assume "j < length (take n (drop i digits))"
    then have j: "j < n" by simp
    with assms(1) have "digit_at digits (i + j) = Some v" by simp
    then show "take n (drop i digits) ! j = replicate n v ! j"
      using j le by (simp add: digit_at_def split: if_splits)
  qed
  then show "drop i digits = replicate n v @ drop (i + n) digits"
    by (metis append_take_drop_id drop_drop add.commute)
qed

lemma repeats_at_run:
  assumes "repeats_at digits i"
  shows "i + count_repeats digits i (digits ! i) 3 \<le> length digits"
    and "drop i digits = replicate (count_repeats digits i (digits ! i) 3) (digits ! i)
           @ drop (i + count_repeats digits i (digits ! i) 3) digits"
    and "3 \<le> count_repeats digits i (digits ! i) 3"
proof -
  let ?v = "digits ! i"
  from assms have a: "digit_at digits (i + 1) = Some ?v" "digit_at digits (i + 2) = Some ?v"
    by (simp_all add: repeats_at_def)
  then have "i < length digits" by (simp add: digit_at_def split: if_splits)
  then have "digit_at digits (i + 0) = Some ?v" by (simp add: digit_at_def)
  with a have "\<forall>j<3. digit_at digits (i + j) = Some ?v"
    by (auto simp: less_Suc_eq numeral_3_eq_3)
  then have all: "\<forall>j<count_repeats digits i ?v 3. digit_at digits (i + j) = Some ?v"
    by (rule count_repeats_all)
  show ge: "3 \<le> count_repeats digits i ?v 3" by (rule count_repeats_ge)
  then have pos: "0 < count_repeats digits i ?v 3" by simp
  show "i + count_repeats digits i ?v 3 \<le> length digits"
    by (rule run_is_replicate(1) [OF all pos])
  show "drop i digits = replicate (count_repeats digits i ?v 3) ?v
           @ drop (i + count_repeats digits i ?v 3) digits"
    by (rule run_is_replicate(2) [OF all pos])
qed

lemma js_index_append:
  "js_index (xs @ y # ys) (int (length xs)) = Some y"
  "js_index (xs @ y # z # ys) (int (length xs) + 1) = Some z"
  by (simp_all add: js_index_def nth_append nat_add_distrib)

lemma limbs_step_literal:
  assumes "js_index L (i - 1) = Some t" and "t \<noteq> ZEROS_SIGNIFIER" and "t \<noteq> NINES_SIGNIFIER"
    and "i \<noteq> 0"
  shows "limbs_loop L i acc = limbs_loop L (i - 1) (acc @ [t])"
  using assms by (subst limbs_loop.simps) simp

lemma limbs_step_zeros:
  assumes "js_index L (i - 1) = Some ZEROS_SIGNIFIER" and "js_index L (i - 2) = Some (int c)"
    and "i \<noteq> 0"
  shows "limbs_loop L i acc = limbs_loop L (i - 2) (acc @ replicate c ALL_ZEROS)"
  by (subst limbs_loop.simps) (simp add: assms push_repeats_def)

lemma limbs_step_nines:
  assumes "js_index L (i - 1) = Some NINES_SIGNIFIER" and "js_index L (i - 2) = Some (int c)"
    and "i \<noteq> 0"
  shows "limbs_loop L i acc = limbs_loop L (i - 2) (acc @ replicate c ALL_NINES)"
  by (subst limbs_loop.simps) (simp add: assms push_repeats_def)

lemma limbs_loop_tokens:
  "list_all (\<lambda>x. 0 \<le> x \<and> x < BASE) digits \<Longrightarrow>
     limbs_loop (rev (tokens_from digits i) @ p) (int (length (tokens_from digits i))) acc
       = Some (acc @ drop i digits)"
proof (induction digits i arbitrary: p acc rule: tokens_from.induct)
  case (1 digits i)
  show ?case
  proof (cases "i < length digits")
    case False
    then have "tokens_from digits i = []" by (subst tokens_from.simps) simp
    with False show ?thesis by (subst limbs_loop.simps) simp
  next
    case True
    let ?v = "digits ! i"
    from "1.prems" True have v: "0 \<le> ?v" "?v < BASE"
      by (auto simp: list_all_length)
    show ?thesis
    proof (cases "repeats_at digits i")
      case False
      let ?ts = "tokens_from digits (i + 1)"
      have tk: "tokens_from digits i = ?v # ?ts"
        using True False by (subst tokens_from.simps) simp
      have L: "rev (tokens_from digits i) @ p = rev ?ts @ ?v # p" by (simp add: tk)
      have idx: "js_index (rev ?ts @ ?v # p) (int (length ?ts)) = Some ?v"
        using js_index_append(1) [of "rev ?ts" ?v p] by simp
      have len: "int (length (tokens_from digits i)) = int (length ?ts) + 1" by (simp add: tk)
      have "limbs_loop (rev ?ts @ ?v # p) (int (length (tokens_from digits i))) acc
          = limbs_loop (rev ?ts @ ?v # p) (int (length ?ts)) (acc @ [?v])"
        unfolding len
        using limbs_step_literal [of "rev ?ts @ ?v # p" "int (length ?ts) + 1" ?v acc] idx v
        by simp
      also have "\<dots> = Some ((acc @ [?v]) @ drop (i + 1) digits)"
        by (rule "1.IH"(2) [OF True False "1.prems"])
      also have "\<dots> = Some (acc @ drop i digits)"
        using True by (simp add: Cons_nth_drop_Suc)
      finally show ?thesis unfolding L .
    next
      case rep: True
      let ?c = "count_repeats digits i ?v 3"
      let ?sig = "if ?v = ALL_ZEROS then ZEROS_SIGNIFIER else NINES_SIGNIFIER"
      let ?ts = "tokens_from digits (i + ?c)"
      note r = repeats_at_run [OF rep]
      from rep have v09: "?v = ALL_ZEROS \<or> ?v = ALL_NINES" by (simp add: repeats_at_def)
      have tk: "tokens_from digits i = ?sig # int ?c # ?ts"
        using True rep by (subst tokens_from.simps) simp
      have L: "rev (tokens_from digits i) @ p = rev ?ts @ int ?c # ?sig # p" by (simp add: tk)
      let ?L = "rev ?ts @ int ?c # ?sig # p"
      let ?n = "int (length ?ts) + 2"
      have "nat (1 + int (length ?ts)) = Suc (length ?ts)" by simp
      then have i1: "js_index ?L (?n - 1) = Some ?sig"
        by (simp add: js_index_def nth_append)
      have i2: "js_index ?L (?n - 2) = Some (int ?c)"
        by (simp add: js_index_def nth_append)
      have nz: "?n \<noteq> 0" by simp
      have len: "int (length (tokens_from digits i)) = ?n" by (simp add: tk)
      have "limbs_loop ?L ?n acc = limbs_loop ?L (?n - 2) (acc @ replicate ?c ?v)"
      proof (cases "?v = ALL_ZEROS")
        case True
        with i1 have i1z: "js_index ?L (?n - 1) = Some ZEROS_SIGNIFIER" by simp
        from limbs_step_zeros [OF i1z i2 nz] True show ?thesis by simp
      next
        case False
        with v09 have nines: "?v = ALL_NINES" by simp
        with i1 have i1n: "js_index ?L (?n - 1) = Some NINES_SIGNIFIER" by simp
        from limbs_step_nines [OF i1n i2 nz] nines show ?thesis by simp
      qed
      then have "limbs_loop ?L (int (length (tokens_from digits i))) acc
          = limbs_loop ?L (int (length ?ts)) (acc @ replicate ?c ?v)"
        unfolding len by simp
      also have "\<dots> = Some ((acc @ replicate ?c ?v) @ drop (i + ?c) digits)"
        by (rule "1.IH"(1) [OF True rep "1.prems"])
      also have "\<dots> = Some (acc @ drop i digits)"
        using r(2) by simp
      finally show ?thesis unfolding L .
    qed
  qed
qed

lemma first_byte_fields:
  "\<forall>fb0\<in>set [0, 128]. \<forall>neg\<in>set [False, True]. \<forall>low\<in>set [0..37].
     (js_and (js_or (if neg then js_or fb0 64 else fb0) low) NEG_SIGN_BIT \<noteq> 0 \<longleftrightarrow> fb0 = 128)
     \<and> (js_and (js_or (if neg then js_or fb0 64 else fb0) low) NEG_EXPONENT_SIGN_BIT \<noteq> 0 \<longleftrightarrow> neg)
     \<and> js_and (js_or (if neg then js_or fb0 64 else fb0) low) SIX_LSB_MASK = low"
  by code_simp

lemma exponent_loop_value:
  "n < length bytes \<Longrightarrow> i \<le> n \<Longrightarrow>
     exponent_loop bytes n i (Num a)
       = Num (a + 256 ^ i * le_val 256 (map uint (take (n - i) (drop (Suc i) bytes))))"
proof (induction "n - i" arbitrary: i a)
  case 0
  then show ?case by (subst exponent_loop.simps) simp
next
  case (Suc m)
  then have lt: "i < n" and m: "m = n - (i + 1)" "n - i = Suc m" by simp_all
  from lt Suc.prems have b: "byte_at bytes (i + 1) = Num (uint (bytes ! (i + 1)))"
    by (simp add: byte_at_def)
  from lt Suc.prems have dr: "drop (Suc i) bytes = bytes ! (i + 1) # drop (Suc (i + 1)) bytes"
    by (simp add: Cons_nth_drop_Suc)
  have "exponent_loop bytes n i (Num a)
      = exponent_loop bytes n (i + 1) (Num (a + uint (bytes ! (i + 1)) * 256 ^ i))"
    using lt b by (subst exponent_loop.simps) simp
  also have "\<dots> = Num (a + uint (bytes ! (i + 1)) * 256 ^ i
      + 256 ^ (i + 1) * le_val 256 (map uint (take (n - (i + 1)) (drop (Suc (i + 1)) bytes))))"
    using lt Suc.prems by (intro Suc.hyps(1) [OF m(1)]) simp_all
  also have "\<dots> = Num (a + 256 ^ i * le_val 256 (map uint (take (n - i) (drop (Suc i) bytes))))"
    unfolding m(2) dr using m(1) by (simp add: algebra_simps)
  finally show ?case .
qed

lemma tokens_from_bounds:
  "list_all (\<lambda>x. 0 \<le> x \<and> x < BASE) digits \<Longrightarrow>
     list_all (\<lambda>t. 0 \<le> t) (tokens_from digits i)"
proof (induction digits i rule: tokens_from.induct)
  case (1 digits i)
  show ?case
  proof (cases "i < length digits")
    case False
    then show ?thesis by (subst tokens_from.simps) simp
  next
    case True
    with "1.prems" have v: "0 \<le> digits ! i" by (auto simp: list_all_length)
    show ?thesis
    proof (cases "repeats_at digits i")
      case False
      from "1.IH"(2) [OF True False "1.prems"] v True False show ?thesis
        by (subst tokens_from.simps) simp
    next
      case rep: True
      from "1.IH"(1) [OF True rep "1.prems"] True rep show ?thesis
        by (subst tokens_from.simps) simp
    qed
  qed
qed

lemma tokens_from_head:
  assumes "digits \<noteq> []" and "0 < hd digits"
  shows "tokens_from digits 0 \<noteq> [] \<and> 0 < hd (tokens_from digits 0)"
proof -
  from assms have "0 < length digits" "0 < digits ! 0" by (simp_all add: hd_conv_nth)
  then show ?thesis by (subst tokens_from.simps, subst (2) tokens_from.simps) simp
qed

text \<open>A run is no longer than the limbs, so fewer than RADIX limbs give tokens below RADIX.\<close>

lemma tokens_from_small:
  "list_all (\<lambda>x. 0 \<le> x \<and> x < BASE) digits \<Longrightarrow> length digits < 10000002 \<Longrightarrow>
     list_all (\<lambda>t. t < RADIX) (tokens_from digits i)"
proof (induction digits i rule: tokens_from.induct)
  case (1 digits i)
  show ?case
  proof (cases "i < length digits")
    case False
    then show ?thesis by (subst tokens_from.simps) simp
  next
    case True
    with "1.prems" have v: "digits ! i < BASE" by (auto simp: list_all_length)
    show ?thesis
    proof (cases "repeats_at digits i")
      case False
      from "1.IH"(2) [OF True False "1.prems"] v True False show ?thesis
        by (subst tokens_from.simps) simp
    next
      case rep: True
      from repeats_at_run(1) [OF rep] "1.prems"(2)
      have "int (count_repeats digits i (digits ! i) 3) < RADIX" by simp
      with "1.IH"(1) [OF True rep "1.prems"] True rep show ?thesis
        by (subst tokens_from.simps) simp
    qed
  qed
qed

text \<open>
  In the general case \<open>fromArrayBuffer\<close> reads back the limbs, the exponent and the sign
  that \<open>toArrayBuffer\<close> wrote, provided every value handed to \<open>convert\<close> is a digit in
  base \<open>RADIX\<close>, which a repeat count of \<open>RADIX\<close> or more is not.
\<close>

lemma general_case_read_fields:
  assumes dx: "d x = Some digits" and ns: "\<not> isSmallInteger digits (e x)"
    and ex: "e x = Num ex" and sx: "s x = Num sg" and sg: "sg = 1 \<or> sg = - 1"
    and small: "\<bar>ex\<bar> < 0x100000000000000"
    and limbs: "list_all (\<lambda>l. 0 \<le> l \<and> l < BASE) digits"
    and ne: "digits \<noteq> []" and hd: "0 < hd digits"
    and fit: "list_all (\<lambda>t. t < RADIX) (tokens_from digits 0)"
  shows "read_fields (toArrayBuffer x) = Some (Some digits, Num ex, Num sg)"
    and "toArrayBuffer x \<noteq> []"
proof -
  define fb0 :: int where "fb0 = (if sg < 0 then 128 else 0)"
  define fb1 where "fb1 = (if ex < 0 then js_or fb0 64 else fb0)"
  define low :: int where
    "low = (if \<bar>ex\<bar> > 30 then int (exponent_count \<bar>ex\<bar>) else if ex \<noteq> 0 then \<bar>ex\<bar> + 7 else 0)"
  define ebytes where "ebytes = (if \<bar>ex\<bar> > 30 then exponent_bytes (nat \<bar>ex\<bar>) else [])"
  define cnt where "cnt = (if \<bar>ex\<bar> > 30 then exponent_count \<bar>ex\<bar> else 0)"
  define fb where "fb = js_or fb1 low"
  have low_range: "low \<in> set [0..37]"
    using exponent_count_range [of "\<bar>ex\<bar>"] by (auto simp: low_def)
  have m1: "fb0 \<in> set [0, 128]" and m2: "(ex < 0) \<in> set [False, True]"
    by (auto simp: fb0_def)
  note b = first_byte_bits [rule_format, OF m1 m2 low_range, folded fb1_def, folded fb_def]
  have bits: "js_or fb1 0 = fb1" "0 \<le> fb" "fb < 256"
    using b by (simp_all only: simp_thms)
  note c = first_byte_fields [rule_format, OF m1 m2 low_range, folded fb1_def, folded fb_def]
  have fields: "js_and fb 128 \<noteq> 0 \<longleftrightarrow> fb0 = 128" "js_and fb 64 \<noteq> 0 \<longleftrightarrow> ex < 0"
    "js_and fb 63 = low"
    using c by (simp_all only: simp_thms)
  have hdr: "exponent_header fb0 (Num ex) = (fb # ebytes, cnt)"
    unfolding exponent_header_eq using bits(1)
    by (auto simp: fb_def fb1_def low_def ebytes_def cnt_def)
  have len: "length ebytes = cnt"
    using exponent_count_length [of "\<bar>ex\<bar>"] small by (simp add: ebytes_def cnt_def)
  have ecan: "list_all (\<lambda>x. 0 \<le> x \<and> x < 256) ebytes"
    using exponent_bytes_canonical [of "nat \<bar>ex\<bar>"] by (simp add: ebytes_def)
  let ?ts = "tokens_from digits 0"
  let ?res = "(fb # ebytes) @ [0]"
  let ?bytes = "foldl (\<lambda>b t. convert t RADIX b 256 (cnt + 1)) ?res ?ts"
  have tb: "toArrayBuffer_bytes x = ?bytes"
    using dx ns ex sx hdr
    by (simp add: toArrayBuffer_bytes_def fb0_def mantissa_loop_tokens)
  have ri: "cnt + 1 < length ?res" using len by simp
  have dr0: "drop (cnt + 1) ?res = [0]" using len by simp
  have can0: "list_all (\<lambda>x. 0 \<le> x \<and> x < 256) (drop (cnt + 1) ?res)"
    unfolding dr0 by simp
  have ts0: "list_all (\<lambda>t. 0 \<le> t) ?ts" by (rule tokens_from_bounds [OF limbs])
  have tcan: "list_all (\<lambda>t. 0 \<le> t \<and> t < RADIX) ?ts"
    using ts0 fit by (simp add: list_all_iff)
  then have ts32: "list_all (\<lambda>t. 0 \<le> t \<and> t \<le> 2147483647) ?ts"
    by (auto simp: list_all_iff)
  note th = tokens_from_head [OF ne hd]
  have f: "take (cnt + 1) ?bytes = take (cnt + 1) ?res
       \<and> list_all (\<lambda>x. 0 \<le> x \<and> x < 256) (drop (cnt + 1) ?bytes)
       \<and> le_val 256 (drop (cnt + 1) ?bytes)
           = le_val 256 (drop (cnt + 1) ?res) * RADIX ^ length ?ts + le_val RADIX (rev ?ts)
       \<and> length ?res \<le> length ?bytes
       \<and> (0 < last ?res \<or> (Suc (cnt + 1) = length ?res \<and> ?ts \<noteq> [] \<and> 0 < hd ?ts)
            \<longrightarrow> 0 < last ?bytes)"
    by (rule foldl_convert [OF ri can0 _ _ ts32]) simp_all
  define M where "M = drop (cnt + 1) ?bytes"
  have tk: "take (cnt + 1) ?bytes = fb # ebytes" using f len by simp
  have split: "?bytes = (fb # ebytes) @ M"
    using append_take_drop_id [of "cnt + 1" ?bytes] unfolding tk M_def [symmetric] by simp
  have Mcan: "list_all (\<lambda>x. 0 \<le> x \<and> x < 256) M" using f by (simp add: M_def)
  have Mval: "le_val 256 M = le_val RADIX (rev ?ts)"
    using f unfolding dr0 M_def by simp
  have lb: "cnt + 2 \<le> length ?bytes" using f len by simp
  then have Mne: "M \<noteq> []" by (simp add: M_def)
  have "0 < last ?bytes" using f th len by simp
  with Mne have Mlast: "0 < last M" by (simp add: M_def)
  have all: "list_all (\<lambda>x. 0 \<le> x \<and> x < 256) ?bytes"
    by (subst split) (simp add: bits ecan Mcan)
  define W where "W = toArrayBuffer x"
  have "map uint W = ?bytes"
    unfolding W_def toArrayBuffer_def tb by (rule map_uint_bytes [OF all])
  with split have W: "map uint W = (fb # ebytes) @ M" by simp
  have lW: "length W = cnt + 1 + length M"
    using arg_cong [OF W, of length] len by simp
  have W0: "uint (W ! 0) = fb"
    using arg_cong [OF W, of hd] lW by (cases W) simp_all
  have Wd: "map uint (drop (cnt + 1) W) = M"
    using arg_cong [OF W, of "drop (cnt + 1)"] len by (simp add: drop_map)
  have We: "map uint (take cnt (drop (Suc 0) W)) = ebytes"
    using arg_cong [OF W, of "\<lambda>xs. take cnt (drop (Suc 0) xs)"] len
    by (simp add: drop_map take_map)
  have l1: "length W \<noteq> 1" using lW Mne by (cases M) simp_all
  have EL: "exponent_loop W cnt 0 (Num 0) = Num (le_val 256 ebytes)"
    using exponent_loop_value [of cnt W 0 0] lW Mne We by (cases M) simp_all
  let ?conv = "\<lambda>r b. convert b 256 r RADIX 0"
  have DL: "digits_loop W (cnt + 1) (length W) [0] = foldl ?conv [0] (rev M)"
    using digits_loop_foldl [of "length W" W "cnt + 1" "[0]"] Wd lW by simp
  have M32: "list_all (\<lambda>t. 0 \<le> t \<and> t \<le> 2147483647) (rev M)"
    using Mcan by (auto simp: list_all_iff)
  have g: "take 0 (foldl ?conv [0] (rev M)) = take 0 [0]
       \<and> list_all (\<lambda>x. 0 \<le> x \<and> x < RADIX) (drop 0 (foldl ?conv [0] (rev M)))
       \<and> le_val RADIX (drop 0 (foldl ?conv [0] (rev M)))
           = le_val RADIX (drop 0 [0]) * 256 ^ length (rev M) + le_val 256 (rev (rev M))
       \<and> length [0::int] \<le> length (foldl ?conv [0] (rev M))
       \<and> (0 < last [0::int] \<or> (Suc 0 = length [0::int] \<and> rev M \<noteq> [] \<and> 0 < hd (rev M))
            \<longrightarrow> 0 < last (foldl ?conv [0] (rev M)))"
    by (rule foldl_convert [OF _ _ _ _ M32]) simp_all
  define D where "D = foldl ?conv [0] (rev M)"
  have Dcan: "list_all (\<lambda>x. 0 \<le> x \<and> x < RADIX) D" using g by (simp add: D_def)
  have Dval: "le_val RADIX D = le_val RADIX (rev ?ts)"
    using g Mval by (simp add: D_def)
  have Dne: "D \<noteq> []" using g by (auto simp: D_def)
  have Dlast: "0 < last D"
    using g Mne Mlast by (simp add: D_def hd_rev)
  have Deq: "D = rev ?ts"
  proof (rule canonical_unique [OF _ Dcan _ Dne Dlast _ _ Dval])
    show "1 < RADIX" by simp
    show "list_all (\<lambda>x. 0 \<le> x \<and> x < RADIX) (rev ?ts)" using tcan by simp
    show "rev ?ts \<noteq> []" using th by simp
    show "0 < last (rev ?ts)" using th by (simp add: last_rev)
  qed
  have LL: "limbs_loop D (int (length D)) [] = Some digits"
    unfolding Deq using limbs_loop_tokens [OF limbs, of 0 "[]" "[]"] by simp
  have sign: "js_and fb 128 = 0 \<longleftrightarrow> sg = 1" "sg = 1 \<or> sg = - 1"
    using fields(1) sg by (auto simp: fb0_def)
  have ev: "le_val 256 ebytes = \<bar>ex\<bar>" if "30 < \<bar>ex\<bar>"
    using that exponent_bytes_value [of "nat \<bar>ex\<bar>"] by (simp add: ebytes_def)
  consider (big) "30 < \<bar>ex\<bar>" | (mid) "1 \<le> \<bar>ex\<bar>" "\<bar>ex\<bar> \<le> 30" | (zero) "ex = 0"
    by linarith
  then show "read_fields (toArrayBuffer x) = Some (Some digits, Num ex, Num sg)"
  proof cases
    case big
    then have lo: "low = int cnt" and c: "1 \<le> cnt" "cnt \<le> 7"
      using exponent_count_range [of "\<bar>ex\<bar>"] by (simp_all add: low_def cnt_def)
    show ?thesis
      unfolding W_def [symmetric]
      using W0 l1 fields(2,3) lo c EL ev [OF big] DL [folded D_def] LL sign
      by (auto simp: read_fields_def Let_def)
  next
    case mid
    then have lo: "low = \<bar>ex\<bar> + 7" and c: "cnt = 0" and nz: "ex \<noteq> 0"
      by (auto simp: low_def cnt_def)
    show ?thesis
      unfolding W_def [symmetric]
      using W0 l1 fields(2,3) lo c nz DL [folded D_def] LL sign
      by (auto simp: read_fields_def Let_def)
  next
    case zero
    then have lo: "low = 0" and c: "cnt = 0"
      by (auto simp: low_def cnt_def)
    show ?thesis
      unfolding W_def [symmetric]
      using W0 l1 fields(2,3) lo c zero DL [folded D_def] LL sign
      by (auto simp: read_fields_def Let_def)
  qed
  show "toArrayBuffer x \<noteq> []"
    using lW unfolding W_def by auto
qed

lemma small_integer_read_fields:
  "\<forall>n\<in>set [0..50]. \<forall>sg\<in>set [1, - 1].
     read_fields (toArrayBuffer \<lparr>d = Some [n], e = Num (if n < 10 then 0 else 1), s = Num sg\<rparr>)
       = Some (Some [n], Num (if n < 10 then 0 else 1), Num sg)
     \<and> toArrayBuffer \<lparr>d = Some [n], e = Num (if n < 10 then 0 else 1), s = Num sg\<rparr> \<noteq> []"
  by code_simp

lemma round_trip_special_values:
  assumes "d x = None" and "e x = NaN" and "s x = NaN \<or> s x = Num 1 \<or> s x = Num (- 1)"
  shows "fromArrayBuffer H (ArrayBuffer (toArrayBuffer x)) = Some (Inr (Some x))"
proof -
  have x: "x = \<lparr>d = d x, e = e x, s = s x\<rparr>" by simp
  from assms(3) show ?thesis
  proof (elim disjE)
    assume "s x = NaN"
    with assms(1,2) x have "x = \<lparr>d = None, e = NaN, s = NaN\<rparr>" by simp
    moreover have "read_fields (toArrayBuffer \<lparr>d = None, e = NaN, s = NaN\<rparr>) = Some (None, NaN, NaN)"
      by code_simp
    moreover have "toArrayBuffer \<lparr>d = None, e = NaN, s = NaN\<rparr> \<noteq> []" by code_simp
    ultimately show ?thesis by (simp add: fromArrayBuffer_def)
  next
    assume "s x = Num 1"
    with assms(1,2) x have "x = \<lparr>d = None, e = NaN, s = Num 1\<rparr>" by simp
    moreover have "read_fields (toArrayBuffer \<lparr>d = None, e = NaN, s = Num 1\<rparr>) = Some (None, NaN, Num 1)"
      by code_simp
    moreover have "toArrayBuffer \<lparr>d = None, e = NaN, s = Num 1\<rparr> \<noteq> []" by code_simp
    ultimately show ?thesis by (simp add: fromArrayBuffer_def)
  next
    assume "s x = Num (- 1)"
    with assms(1,2) x have "x = \<lparr>d = None, e = NaN, s = Num (- 1)\<rparr>" by simp
    moreover have "read_fields (toArrayBuffer \<lparr>d = None, e = NaN, s = Num (- 1)\<rparr>)
        = Some (None, NaN, Num (- 1))"
      by code_simp
    moreover have "toArrayBuffer \<lparr>d = None, e = NaN, s = Num (- 1)\<rparr> \<noteq> []" by code_simp
    ultimately show ?thesis by (simp add: fromArrayBuffer_def)
  qed
qed

lemma round_trip_finite:
  assumes dx: "d x = Some digits" and ex: "e x = Num ex" and sx: "s x = Num sg"
    and sg: "sg = 1 \<or> sg = - 1"
    and limbs: "list_all (\<lambda>l. 0 \<le> l \<and> l < BASE) digits"
    and ne: "digits \<noteq> []"
    and hd: "0 < hd digits \<or> (digits = [0] \<and> ex = 0)"
    and fit: "list_all (\<lambda>t. t < RADIX) (tokens_from digits 0)"
    and range: "minE H \<le> ex" "ex \<le> maxE H" "\<bar>ex\<bar> < 0x100000000000000"
  shows "fromArrayBuffer H (ArrayBuffer (toArrayBuffer x)) = Some (Inr (Some x))"
proof -
  have x: "x = \<lparr>d = Some digits, e = Num ex, s = Num sg\<rparr>"
    using dx ex sx by (cases x) simp
  have rf: "read_fields (toArrayBuffer x) = Some (Some digits, Num ex, Num sg)
      \<and> toArrayBuffer x \<noteq> []"
  proof (cases "isSmallInteger digits (e x)")
    case False
    with hd ex have "0 < hd digits" by (auto simp: isSmallInteger_def)
    from general_case_read_fields [OF dx False ex sx sg range(3) limbs ne this fit]
    show ?thesis by simp
  next
    case True
    then obtain n where n: "digits = [n]" "n \<le> 50" "ex = (if n < 10 then 0 else 1)"
      using ex by (cases digits) (auto simp: isSmallInteger_def)
    with limbs have "n \<in> set [0..50]" by simp
    moreover from sg have "sg \<in> set [1, - 1]" by auto
    ultimately show ?thesis
      using small_integer_read_fields unfolding x n by blast
  qed
  with range(1,2) x show ?thesis
    by (simp add: fromArrayBuffer_def)
qed

lemma round_trip_fewer_limbs_than_RADIX:
  assumes "d x = Some digits" and "e x = Num ex" and "s x = Num sg"
    and "sg = 1 \<or> sg = - 1"
    and "list_all (\<lambda>l. 0 \<le> l \<and> l < BASE) digits"
    and "digits \<noteq> []"
    and "0 < hd digits \<or> (digits = [0] \<and> ex = 0)"
    and "length digits < 10000002"
    and "minE H \<le> ex" "ex \<le> maxE H" "\<bar>ex\<bar> < 0x100000000000000"
  shows "fromArrayBuffer H (ArrayBuffer (toArrayBuffer x)) = Some (Inr (Some x))"
    and "\<exists>y. fromArrayBuffer H (ArrayBuffer (toArrayBuffer x)) = Some (Inr (Some y))
           \<and> toArrayBuffer y = toArrayBuffer x"
proof -
  show "fromArrayBuffer H (ArrayBuffer (toArrayBuffer x)) = Some (Inr (Some x))"
    using assms(1-7) tokens_from_small [OF assms(5,8)] assms(9-11)
    by (rule round_trip_finite)
  then show "\<exists>y. fromArrayBuffer H (ArrayBuffer (toArrayBuffer x)) = Some (Inr (Some y))
           \<and> toArrayBuffer y = toArrayBuffer x"
    by simp
qed

lemma round_trip_of_a_run_of_three:
  "tokens_from [1, 0, 0, 0, 5] 0 = [1, ZEROS_SIGNIFIER, 3, 5]
   \<and> tokens_from [1, 0, 0, 5] 0 = [1, 0, 0, 5]
   \<and> toArrayBuffer \<lparr>d = Some [1, 0, 0, 0, 5], e = Num 28, s = Num (- 1)\<rparr>
       = [0xA3, 0x93, 0xAB, 0x59, 0x6D, 0x0A, 0xE9, 0x96, 0x6B, 0x6C]
   \<and> fromArrayBuffer default_host
        (ArrayBuffer (toArrayBuffer \<lparr>d = Some [1, 0, 0, 0, 5], e = Num 28, s = Num (- 1)\<rparr>))
       = Some (Inr (Some \<lparr>d = Some [1, 0, 0, 0, 5], e = Num 28, s = Num (- 1)\<rparr>))"
proof -
  have t: "tokens_from [1, 0, 0, 0, 5] 0 = [1, ZEROS_SIGNIFIER, 3, 5]"
    "tokens_from [1, 0, 0, 5] 0 = [1, 0, 0, 5]"
    by code_simp+
  have b: "toArrayBuffer \<lparr>d = Some [1, 0, 0, 0, 5], e = Num 28, s = Num (- 1)\<rparr>
       = [0xA3, 0x93, 0xAB, 0x59, 0x6D, 0x0A, 0xE9, 0x96, 0x6B, 0x6C]"
    by code_simp
  have "fromArrayBuffer default_host
        (ArrayBuffer (toArrayBuffer \<lparr>d = Some [1, 0, 0, 0, 5], e = Num 28, s = Num (- 1)\<rparr>))
       = Some (Inr (Some \<lparr>d = Some [1, 0, 0, 0, 5], e = Num 28, s = Num (- 1)\<rparr>))"
    using round_trip_fewer_limbs_than_RADIX(1)
      [of "\<lparr>d = Some [1, 0, 0, 0, 5], e = Num 28, s = Num (- 1)\<rparr>" "[1, 0, 0, 0, 5]" 28 "- 1"
        default_host]
    by (simp add: default_host_def)
  with t b show ?thesis by simp
qed

subsection \<open>The range check on the exponent\<close>











section \<open>Properties of the evaluator\<close>

subsection \<open>The depth bound is never reached\<close>

text \<open>
  A call of \<open>evaluate\<close> that returns a value has taken at least one token, and the
  argument loop of a function at least one more.
\<close>

lemma consumes:
  "(\<forall>rbp ts v ts1. evaluate H S n rbp ts = Some (Inr (v, ts1)) \<longrightarrow> length ts1 < length ts)
   \<and> (\<forall>rbp left ts v ts1. infix_loop H S n rbp left ts = Some (Inr (v, ts1)) \<longrightarrow> length ts1 \<le> length ts)
   \<and> (\<forall>args ts as ts1. func_args H S n args ts = Some (Inr (as, ts1)) \<longrightarrow> length ts1 < length ts)"
proof (induction n)
  case 0
  show ?case by simp
next
  case (Suc n)
  then have E: "\<And>rbp ts v ts1. evaluate H S n rbp ts = Some (Inr (v, ts1)) \<Longrightarrow> length ts1 < length ts"
    and I: "\<And>rbp left ts v ts1. infix_loop H S n rbp left ts = Some (Inr (v, ts1)) \<Longrightarrow> length ts1 \<le> length ts"
    and F: "\<And>args ts as ts1. func_args H S n args ts = Some (Inr (as, ts1)) \<Longrightarrow> length ts1 < length ts"
    by blast+
  have e: "length ts1 < length ts" if "evaluate H S (Suc n) rbp ts = Some (Inr (v, ts1))" for rbp ts v ts1
  proof (cases ts)
    case Nil
    with that show ?thesis by simp
  next
    case (Cons t ts')
    show ?thesis
    proof (cases t)
      case (NumTok x)
      with that Cons I [of rbp x ts' v ts1] show ?thesis by simp
    next
      case (VarTok x)
      with that Cons show ?thesis
        by (auto split: option.splits binding.splits dest!: I)
    next
      case (FuncTok f)
      with that Cons show ?thesis
        by (auto split: option.splits binding.splits list.splits if_splits sum.splits prod.splits
            dest!: I F)
    next
      case (OpTok opr)
      with that Cons show ?thesis
        by (cases opr)
          (auto split: option.splits list.splits if_splits sum.splits prod.splits
            simp: Let_def dest!: I E)
    next
      case EndTok
      with that Cons show ?thesis by simp
    qed
  qed
  have i: "length ts1 \<le> length ts" if "infix_loop H S (Suc n) rbp left ts = Some (Inr (v, ts1))"
    for rbp left ts v ts1
  proof (cases ts)
    case Nil
    with that show ?thesis by simp
  next
    case (Cons t ts')
    with that show ?thesis
      by (auto split: option.splits token.splits if_splits sum.splits prod.splits dest!: I E)
  qed
  have f: "length ts1 < length ts" if "func_args H S (Suc n) args ts = Some (Inr (as, ts1))"
    for args ts as ts1
    using that
    by (auto split: option.splits list.splits if_splits sum.splits prod.splits dest!: F E)
  from e i f show ?case by blast
qed

text \<open>
  So the calls nest no deeper than twice the number of tokens plus one, and
  \<open>Decimal.eval\<close> always returns a value or throws: the depth bound of the model is
  never the outcome of a call.
\<close>

lemmas evaluate_consumes = consumes [THEN conjunct1, rule_format]
lemmas infix_loop_consumes = consumes [THEN conjunct2, THEN conjunct1, rule_format]
lemmas func_args_consumes = consumes [THEN conjunct2, THEN conjunct2, rule_format]

lemma depth_bound_suffices:
  "(\<forall>rbp ts. 2 * length ts + 1 \<le> n \<longrightarrow> evaluate H S n rbp ts \<noteq> None)
   \<and> (\<forall>rbp left ts. 2 * length ts + 1 \<le> n \<longrightarrow> infix_loop H S n rbp left ts \<noteq> None)
   \<and> (\<forall>args ts. 2 * length ts + 2 \<le> n \<longrightarrow> func_args H S n args ts \<noteq> None)"
proof (induction n)
  case 0
  show ?case by simp
next
  case (Suc n)
  then have E: "\<And>rbp ts. 2 * length ts + 1 \<le> n \<Longrightarrow> \<exists>y. evaluate H S n rbp ts = Some y"
    and I: "\<And>rbp left ts. 2 * length ts + 1 \<le> n \<Longrightarrow> \<exists>y. infix_loop H S n rbp left ts = Some y"
    and F: "\<And>args ts. 2 * length ts + 2 \<le> n \<Longrightarrow> \<exists>y. func_args H S n args ts = Some y"
    by auto
  have e: "evaluate H S (Suc n) rbp ts \<noteq> None" if le: "2 * length ts + 1 \<le> Suc n" for rbp ts
  proof (cases ts)
    case Nil
    then show ?thesis by simp
  next
    case (Cons t ts')
    with le have n: "2 * length ts' + 2 \<le> n" by simp
    then have n1: "2 * length ts' + 1 \<le> n" by simp
    have il: "\<exists>y. infix_loop H S n rbp left ts2 = Some y" if "length ts2 \<le> length ts'" for left ts2
      using that n1 by (intro I) simp
    have ev: "(\<exists>err. evaluate H S n r ts' = Some (Inl err))
         \<or> (\<exists>v ts1. evaluate H S n r ts' = Some (Inr (v, ts1)) \<and> length ts1 < length ts')" for r
    proof -
      from E [OF n1, of r] obtain y where y: "evaluate H S n r ts' = Some y" by blast
      show ?thesis
      proof (cases y)
        case (Inl err)
        with y show ?thesis by simp
      next
        case (Inr p)
        with y evaluate_consumes [of H S n r ts' "fst p" "snd p"] show ?thesis
          by (cases p) auto
      qed
    qed
    show ?thesis
    proof (cases t)
      case (NumTok x)
      with Cons il [of ts' x] show ?thesis by auto
    next
      case (VarTok x)
      with Cons il [of ts'] show ?thesis
        by (auto split: option.splits binding.splits)
    next
      case (FuncTok f)
      show ?thesis
      proof (cases ts')
        case Nil
        with FuncTok Cons show ?thesis by simp
      next
        case c1: (Cons t1 ts1)
        have fa: "\<exists>y. func_args H S n [] ts1 = Some y"
          using n c1 by (intro F) simp
        have args: "(\<exists>err. func_args H S n [] ts1 = Some (Inl err))
            \<or> (\<exists>as ts3. func_args H S n [] ts1 = Some (Inr (as, ts3)) \<and> length ts3 < length ts1)"
        proof -
          from fa obtain y where y: "func_args H S n [] ts1 = Some y" by blast
          show ?thesis
          proof (cases y)
            case (Inl err)
            with y show ?thesis by simp
          next
            case (Inr p)
            with y func_args_consumes [of H S n "[]" ts1 "fst p" "snd p"] show ?thesis
              by (cases p) auto
          qed
        qed
        have il': "infix_loop H S n rbp left ts3 \<noteq> None" if "length ts3 \<le> length ts1" for left ts3
          using il [of ts3 left] that c1 by auto
        show ?thesis
        proof (cases "val_is LParen t1")
          case False
          with FuncTok Cons c1 show ?thesis by simp
        next
          case True
          show ?thesis
          proof (cases ts1)
            case Nil
            with True FuncTok Cons c1 show ?thesis by simp
          next
            case c2: (Cons t2 ts2)
            show ?thesis
            proof (cases "val_is RParen t2")
              case r: True
              with True FuncTok Cons c1 c2 il' [of ts2] show ?thesis
                by (auto split: option.splits binding.splits)
            next
              case r: False
              from args show ?thesis
              proof (elim disjE exE conjE)
                fix err assume "func_args H S n [] ts1 = Some (Inl err)"
                with r True FuncTok Cons c1 c2 show ?thesis by simp
              next
                fix as ts3
                assume a: "func_args H S n [] ts1 = Some (Inr (as, ts3))" "length ts3 < length ts1"
                with r True FuncTok Cons c1 c2 il' [of ts3] show ?thesis
                  by (auto split: option.splits binding.splits)
              qed
            qed
          qed
        qed
      qed
    next
      case (OpTok opr)
      have step: "(case evaluate H S n r ts' of None \<Rightarrow> None | Some (Inl err) \<Rightarrow> Some (Inl err)
            | Some (Inr (v, ts1)) \<Rightarrow> k v ts1) \<noteq> None"
        if "\<And>v ts1. length ts1 < length ts' \<Longrightarrow> k v ts1 \<noteq> None" for r k
        using ev [of r] that by auto
      show ?thesis
      proof (cases opr)
        case Plus
        with OpTok Cons show ?thesis
          using step [of "\<lambda>r ts1. infix_loop H S n rbp r ts1" 70] il by fastforce
      next
        case Minus
        with OpTok Cons show ?thesis
          using step [of "\<lambda>r0 ts1. let r = Decimal_of_Decimal H r0
                     in infix_loop H S n rbp (r\<lparr>s := js_neg (s r)\<rparr>) ts1" 70] il
          by (fastforce simp: Let_def)
      next
        case Sqrt
        with OpTok Cons show ?thesis
          using step [of "\<lambda>r ts1. infix_loop H S n rbp (d_sqrt H r) ts1" 79] il by fastforce
      next
        case Not
        with OpTok Cons show ?thesis
          using step [of "\<lambda>r ts1. infix_loop H S n rbp
                      (Decimal_of_number H (if d_isZero H r then 1 else 0)) ts1" 70] il
          by fastforce
      next
        case LParen
        with OpTok Cons show ?thesis
          using step [of "\<lambda>r ts1. case ts1 of
                       [] \<Rightarrow> Some (Inl (TypeError (js ''token is undefined'')))
                     | t1 # ts2 \<Rightarrow>
                         if \<not> val_is RParen t1
                         then Some (Inl (Error (js ''Decimal.eval: expected )'')))
                         else infix_loop H S n rbp r ts2" 0] il
          by (fastforce split: list.splits)
      qed (use OpTok Cons in simp_all)
    next
      case EndTok
      with Cons show ?thesis by simp
    qed
  qed
  have i: "infix_loop H S (Suc n) rbp left ts \<noteq> None" if le: "2 * length ts + 1 \<le> Suc n"
    for rbp left ts
  proof (cases ts)
    case Nil
    then show ?thesis by simp
  next
    case (Cons t ts')
    with le have n1: "2 * length ts' + 1 \<le> n" by simp
    show ?thesis
    proof (cases "binds rbp t")
      case False
      with Cons show ?thesis by simp
    next
      case True
      show ?thesis
      proof (cases t)
        case (OpTok opr)
        from E [OF n1, of "infix_rbp opr"] obtain y
          where y: "evaluate H S n (infix_rbp opr) ts' = Some y" by blast
        show ?thesis
        proof (cases y)
          case (Inl err)
          with y True OpTok Cons show ?thesis by simp
        next
          case (Inr p)
          obtain r ts1 where p: "p = (r, ts1)" by (cases p)
          with y Inr have "length ts1 < length ts'"
            using evaluate_consumes [of H S n "infix_rbp opr" ts' r ts1] by simp
          with n1 have "2 * length ts1 + 1 \<le> n" by simp
          from I [OF this, of rbp "infix_apply H opr left r"] y Inr p True OpTok Cons
          show ?thesis by auto
        qed
      qed (use True Cons in simp_all)
    qed
  qed
  have f: "func_args H S (Suc n) args ts \<noteq> None" if le: "2 * length ts + 2 \<le> Suc n"
    for args ts
  proof -
    from le have n1: "2 * length ts + 1 \<le> n" by simp
    from E [OF n1, of 0] obtain y where y: "evaluate H S n 0 ts = Some y" by blast
    show ?thesis
    proof (cases y)
      case (Inl err)
      with y show ?thesis by simp
    next
      case (Inr p)
      obtain v ts1 where p: "p = (v, ts1)" by (cases p)
      with y Inr have l: "length ts1 < length ts"
        using evaluate_consumes [of H S n 0 ts v ts1] by simp
      show ?thesis
      proof (cases ts1)
        case Nil
        with y Inr p show ?thesis by simp
      next
        case (Cons t1 ts2)
        with l n1 have "2 * length ts2 + 2 \<le> n" by simp
        from F [OF this, of "args @ [v]"] y Inr p Cons show ?thesis by auto
      qed
    qed
  qed
  from e i f show ?case by blast
qed


lemma run_tokens_returns: "\<exists>y. fst (run_tokens H st) = Some y"
proof (cases "TOKENS st")
  case None
  then show ?thesis by (simp add: run_tokens_def)
next
  case (Some toks)
  have "evaluate H (SCOPE st) (2 * length toks + 2) 0 toks \<noteq> None"
    using depth_bound_suffices [of "2 * length toks + 2" H "SCOPE st"] by simp
  with Some show ?thesis
    by (auto simp: run_tokens_def split: sum.splits prod.splits list.splits)
qed

lemma Decimal_eval_returns: "\<exists>y. fst (Decimal_eval H st expr scope) = Some y"
  by (auto simp: Decimal_eval_def run_tokens_returns Let_def
      split: js_arg.splits option.splits sum.splits prod.splits)

subsection \<open>Implicit multiplication\<close>

lemma keys_scope_put: "fst ` set (scope_put k v S) = insert k (fst ` set S)"
proof (induction S)
  case Nil
  show ?case by simp
next
  case (Cons a S)
  obtain k' v' where a: "a = (k', v')" by (cases a)
  show ?case
  proof (cases "k = k'")
    case True
    with a show ?thesis by simp
  next
    case False
    with a Cons show ?thesis by (simp add: insert_commute)
  qed
qed

lemma map_of_scope_put: "map_of (scope_put k v S) k' = (if k' = k then Some v else map_of S k')"
  by (induction S) auto

lemma install_entries_keys:
  "install_entries entries S0 = (None, S) \<Longrightarrow> k \<in> fst ` set S
     \<Longrightarrow> VALID_IDENTIFIER k \<or> k \<in> fst ` set S0"
proof (induction entries S0 rule: install_entries.induct)
  case (1 S0)
  then show ?case by simp
next
  case (2 ident val rest S0)
  then show ?case
    by (auto simp: keys_scope_put split: if_splits js_val.splits option.splits)
qed

lemma set_longestFirst: "set (longestFirst ids) = set ids"
  by (simp add: longestFirst_def)

lemma match_identifier_unique:
  assumes "x \<in> set ids" and "x \<noteq> []" and "take (length x) cs = x"
    and "\<And>i. i \<in> set ids \<Longrightarrow> i \<noteq> [] \<Longrightarrow> take (length i) cs = i \<Longrightarrow> i = x"
  shows "match_identifier ids cs = Some x"
proof -
  let ?P = "\<lambda>ident. ident \<noteq> [] \<and> take (length ident) cs = ident"
  from assms(1-3) have "\<exists>i\<in>set ids. ?P i" by blast
  then obtain y where y: "find ?P ids = Some y"
    by (cases "find ?P ids") (auto simp: find_None_iff)
  then have "y \<in> set ids" "?P y"
    by (auto simp: find_Some_iff)
  with assms(4) [of y] have "y = x" by blast
  with y show ?thesis by (simp add: match_identifier_def)
qed

lemma match_identifier_none:
  assumes "\<And>i. i \<in> set ids \<Longrightarrow> i \<noteq> [] \<Longrightarrow> take (length i) cs \<noteq> i"
  shows "match_identifier ids cs = None"
  using assms by (auto simp: match_identifier_def find_None_iff)

lemma valid_identifier_head:
  "VALID_IDENTIFIER i \<Longrightarrow> take (length i) (c # cs) = i \<Longrightarrow>
     (65 \<le> c \<and> c \<le> 90) \<or> (97 \<le> c \<and> c \<le> 122) \<or> c = 95 \<or> c = 36 \<or> is_greek c"
  by (cases i) (auto simp: VALID_IDENTIFIER_def)

lemma valid_identifier_x:
  assumes "VALID_IDENTIFIER i" and "take (length i) (120 # cs) = i"
    and "cs = [] \<or> hd cs = 41"
  shows "i = [120]"
proof (cases i)
  case Nil
  with assms show ?thesis by (simp add: VALID_IDENTIFIER_def)
next
  case (Cons a r)
  note i = this
  with assms have a: "a = 120" by simp
  show ?thesis
  proof (cases r)
    case Nil
    with i a show ?thesis by simp
  next
    case (Cons b r')
    with i assms have "cs \<noteq> []" "b = hd cs" by (cases cs; simp)+
    with assms(3) have "b = 41" by simp
    with assms(1) i Cons show ?thesis
      by (simp add: VALID_IDENTIFIER_def is_word_def is_digit_def is_greek_def)
  qed
qed


lemma js_chars:
  "js ''2x'' = [50, 120]" "js ''2*x'' = [50, 42, 120]" "js ''(2)(x)'' = [40, 50, 41, 40, 120, 41]"
  "js ''1/2x'' = [49, 47, 50, 120]" "js ''(1/2)*x'' = [40, 49, 47, 50, 41, 42, 120]"
  "js ''x'' = [120]" "js ''2'' = [50]" "js ''1'' = [49]" "js ''*'' = [42]"
  by (simp_all add: js_def)

lemma tokenize_step:
  assumes "\<not> is_space c"
  shows "tokenize H S ids (c # cs) toks parsed
      = (case next_token H S ids (c # cs) of
           Inl unknown \<Rightarrow> Inl unknown
         | Inr (tok, m, star, rest) \<Rightarrow>
             tokenize H S ids rest (toks @ [tok] @ (if star then [OpTok Times] else []))
               (parsed @ m @ (if star then js ''*'' else [])))"
  using assms by (subst tokenize.simps) simp

lemma tokenize_end: "tokenize H S ids [] toks parsed = Inr (toks, parsed)"
  by (subst tokenize.simps) simp

lemma next_token_digit:
  assumes "is_digit c" and "cs = [] \<or> \<not> (is_digit (hd cs) \<or> hd cs = 46 \<or> hd cs = 101 \<or> hd cs = 69)"
  shows "next_token H S ids (c # cs) = Inr (NumTok (Decimal_of_string H [c]), [c], lookahead cs, cs)"
  using assms
  by (cases cs) (auto simp: next_token_def match_number_def match_fraction_def match_exponent_def)

lemma next_token_x:
  assumes "\<forall>i\<in>set ids. VALID_IDENTIFIER i" and "[120] \<in> set ids"
    and "map_of S [120] = Some (Variable v)" and "cs = [] \<or> hd cs = 41"
  shows "next_token H S ids (120 # cs) = Inr (VarTok [120], [120], lookahead cs, cs)"
proof -
  have "match_number (120 # cs) = None"
    by (simp add: match_number_def is_digit_def)
  moreover have "match_identifier ids (120 # cs) = Some [120]"
    using assms(1,2,4) by (intro match_identifier_unique) (auto intro: valid_identifier_x)
  ultimately show ?thesis using assms(3) by (simp add: next_token_def)
qed

lemma next_token_operator:
  assumes "\<forall>i\<in>set ids. VALID_IDENTIFIER i" and "c = 40 \<or> c = 42 \<or> c = 47"
  shows "next_token H S ids (c # cs)
      = Inr (OpTok (if c = 40 then LParen else if c = 42 then Times else Div), [c], False, cs)"
proof -
  have "match_number (c # cs) = None"
    using assms(2) by (auto simp: match_number_def is_digit_def)
  moreover have "match_identifier ids (c # cs) = None"
  proof (rule match_identifier_none)
    fix i assume "i \<in> set ids" "i \<noteq> []"
    with assms(1) have "VALID_IDENTIFIER i" by blast
    from valid_identifier_head [OF this, of c cs] assms(2)
    show "take (length i) (c # cs) \<noteq> i" by (auto simp: is_greek_def)
  qed
  moreover have "match_operator (c # cs) = Some (if c = 40 then LParen else if c = 42 then Times else Div, cs)"
    using assms(2) by (cases cs) (auto simp: match_operator_def two_char_op_def one_char_op_def)
  ultimately show ?thesis using assms(2) by (auto simp: next_token_def js_def)
qed

lemma next_token_rparen:
  assumes "\<forall>i\<in>set ids. VALID_IDENTIFIER i"
  shows "next_token H S ids (41 # cs) = Inr (OpTok RParen, [41], lookahead cs, cs)"
proof -
  have "match_number (41 # cs) = None"
    by (auto simp: match_number_def is_digit_def)
  moreover have "match_identifier ids (41 # cs) = None"
  proof (rule match_identifier_none)
    fix i assume "i \<in> set ids" "i \<noteq> []"
    with assms(1) have "VALID_IDENTIFIER i" by blast
    from valid_identifier_head [OF this, of 41 cs]
    show "take (length i) (41 # cs) \<noteq> i" by (auto simp: is_greek_def)
  qed
  ultimately show ?thesis by (simp add: next_token_def)
qed

lemmas char_simps = is_space_def is_digit_def is_word_def is_greek_def lookahead_def

lemma tokenize_implicit:
  assumes ids: "\<forall>i\<in>set ids. VALID_IDENTIFIER i" and x: "[120] \<in> set ids"
    and v: "map_of S [120] = Some (Variable v)"
  shows "tokenize H S ids [50, 120] [] []
           = Inr ([NumTok (Decimal_of_string H [50]), OpTok Times, VarTok [120]], [50, 42, 120])"
    and "tokenize H S ids [50, 42, 120] [] []
           = Inr ([NumTok (Decimal_of_string H [50]), OpTok Times, VarTok [120]], [50, 42, 120])"
    and "tokenize H S ids [40, 50, 41, 40, 120, 41] [] []
           = Inr ([OpTok LParen, NumTok (Decimal_of_string H [50]), OpTok RParen, OpTok Times,
                   OpTok LParen, VarTok [120], OpTok RParen], [40, 50, 41, 42, 40, 120, 41])"
    and "tokenize H S ids [49, 47, 50, 120] [] []
           = Inr ([NumTok (Decimal_of_string H [49]), OpTok Div, NumTok (Decimal_of_string H [50]),
                   OpTok Times, VarTok [120]], [49, 47, 50, 42, 120])"
    and "tokenize H S ids [40, 49, 47, 50, 41, 42, 120] [] []
           = Inr ([OpTok LParen, NumTok (Decimal_of_string H [49]), OpTok Div,
                   NumTok (Decimal_of_string H [50]), OpTok RParen, OpTok Times, VarTok [120]],
                  [40, 49, 47, 50, 41, 42, 120])"
  by (simp_all add: tokenize_step tokenize_end next_token_digit next_token_x [OF ids x v]
      next_token_operator [OF ids] next_token_rparen [OF ids] char_simps js_chars)


lemma trim_chars:
  "trim [50, 120] \<noteq> []" "trim [50, 42, 120] \<noteq> []" "trim [40, 50, 41, 40, 120, 41] \<noteq> []"
  "trim [49, 47, 50, 120] \<noteq> []" "trim [40, 49, 47, 50, 41, 42, 120] \<noteq> []"
  by (simp_all add: trim_def is_space_def)

lemmas fuel_simps =
  evaluate.simps(2,3) [of _ _ "pred_numeral k", folded numeral_eq_Suc]
  infix_loop.simps(2,3) [of _ _ "pred_numeral k", folded numeral_eq_Suc]
  func_args.simps(2) [of _ _ "pred_numeral k", folded numeral_eq_Suc]
  for k

lemma run_product:
  assumes "map_of (SCOPE st) [120] = Some (Variable v)"
  shows "TOKENS st = Some [NumTok a, OpTok Times, VarTok [120], EndTok]
           \<Longrightarrow> fst (run_tokens H st) = Some (Inr (Decimal_of_Decimal H (d_times H a v)))"
    and "TOKENS st = Some [OpTok LParen, NumTok a, OpTok RParen, OpTok Times,
                   OpTok LParen, VarTok [120], OpTok RParen, EndTok]
           \<Longrightarrow> fst (run_tokens H st) = Some (Inr (Decimal_of_Decimal H (d_times H a v)))"
    and "TOKENS st = Some [NumTok b, OpTok Div, NumTok a, OpTok Times, VarTok [120], EndTok]
           \<Longrightarrow> fst (run_tokens H st)
             = Some (Inr (Decimal_of_Decimal H (d_times H (d_div H b a) v)))"
    and "TOKENS st = Some [OpTok LParen, NumTok b, OpTok Div, NumTok a,
                   OpTok RParen, OpTok Times, VarTok [120], EndTok]
           \<Longrightarrow> fst (run_tokens H st)
             = Some (Inr (Decimal_of_Decimal H (d_times H (d_div H b a) v)))"
  using assms by (simp_all add: run_tokens_def js_def fuel_simps)

text \<open>
  C9.  For every scope object whose entries install and bind \<open>x\<close> to a value \<open>v\<close>, the
  strings \<open>2x\<close>, \<open>2*x\<close> and \<open>(2)(x)\<close> all evaluate to \<open>new Decimal('2').times(v)\<close>, and
  \<open>1/2x\<close> evaluates to what \<open>(1/2)*x\<close> does, \<open>new Decimal('1').div('2').times(v)\<close> (each
  passed through \<open>new Decimal\<close> once more at the end): the inserted \<open>*\<close> has the binding
  power of \<open>/\<close> and associates to the left.
\<close>

theorem implicit_multiplication:
  assumes "install_entries entries [] = (None, S)"
    and "map_of S (js ''x'') = Some (Variable v)"
  shows "fst (Decimal_eval H st (JString (js ''2x'')) (JObject entries))
           = Some (Inr (Decimal_of_Decimal H (d_times H (Decimal_of_string H (js ''2'')) v)))
       \<and> fst (Decimal_eval H st (JString (js ''2*x'')) (JObject entries))
           = Some (Inr (Decimal_of_Decimal H (d_times H (Decimal_of_string H (js ''2'')) v)))
       \<and> fst (Decimal_eval H st (JString (js ''(2)(x)'')) (JObject entries))
           = Some (Inr (Decimal_of_Decimal H (d_times H (Decimal_of_string H (js ''2'')) v)))
       \<and> fst (Decimal_eval H st (JString (js ''1/2x'')) (JObject entries))
           = Some (Inr (Decimal_of_Decimal H
               (d_times H (d_div H (Decimal_of_string H (js ''1'')) (Decimal_of_string H (js ''2''))) v)))
       \<and> fst (Decimal_eval H st (JString (js ''(1/2)*x'')) (JObject entries))
           = Some (Inr (Decimal_of_Decimal H
               (d_times H (d_div H (Decimal_of_string H (js ''1'')) (Decimal_of_string H (js ''2''))) v)))"
proof -
  let ?ids = "longestFirst (map fst S)"
  from assms(2) have v: "map_of S [120] = Some (Variable v)" by (simp add: js_def)
  then have x: "[120] \<in> set ?ids"
    by (auto simp: set_longestFirst dest: map_of_SomeD intro: rev_image_eqI)
  then have ne: "map fst S \<noteq> []" by (auto simp: set_longestFirst)
  have ids: "\<forall>i\<in>set ?ids. VALID_IDENTIFIER i"
    using install_entries_keys [OF assms(1)] by (auto simp: set_longestFirst)
  note tok = tokenize_implicit [OF ids x v, of H]
  let ?st1 = "st\<lparr>SCOPE := S, TOKENIZER := ?ids\<rparr>"
  have v1: "map_of (SCOPE ?st1) [120] = Some (Variable v)" using v by simp
  show ?thesis
    using assms(1) ne
    by (simp add: Decimal_eval_def js_chars trim_chars tok run_product v)
qed

theorem implicit_multiplication_witness:
  "fst (Decimal_eval toy_host initial_state (JString (js ''2x''))
          (JObject [(js ''x'', JValue (Some (toy_dec 4)))])) = Some (Inr (toy_dec 8))
   \<and> fst (Decimal_eval toy_host initial_state (JString (js ''(2)(x)''))
          (JObject [(js ''x'', JValue (Some (toy_dec 4)))])) = Some (Inr (toy_dec 8))
   \<and> fst (Decimal_eval toy_host initial_state (JString (js ''1/2x''))
          (JObject [(js ''x'', JValue (Some (toy_dec 4)))])) = Some (Inr (toy_dec 0))"
proof -
  have i: "install_entries [(js ''x'', JValue (Some (toy_dec 4)))] []
      = (None, [(js ''x'', Variable (toy_dec 4))])"
    by (simp add: VALID_IDENTIFIER_def js_def)
  have m: "map_of [(js ''x'', Variable (toy_dec 4))] (js ''x'') = Some (Variable (toy_dec 4))"
    by simp
  have h: "d_times toy_host (Decimal_of_string toy_host (js ''2'')) (toy_dec 4) = toy_dec 8"
    "d_times toy_host (d_div toy_host (Decimal_of_string toy_host (js ''1''))
        (Decimal_of_string toy_host (js ''2''))) (toy_dec 4) = toy_dec 0"
    "Decimal_of_Decimal toy_host x = x" for x
    by (simp_all add: toy_host_def toy_digits_def toy_dec_def toy_val_def js_def is_digit_def)
  from implicit_multiplication [OF i m, of toy_host initial_state] show ?thesis
    by (simp only: h)
qed

subsection \<open>Blank expressions\<close>

lemma trim_empty_iff: "trim str = [] \<longleftrightarrow> list_all is_space str"
proof
  assume "trim str = []"
  then have "dropWhile is_space (rev (dropWhile is_space str)) = []"
    by (simp only: trim_def rev_is_Nil_conv)
  then have all: "\<forall>x\<in>set (dropWhile is_space str). is_space x"
    by (simp only: dropWhile_eq_Nil_conv set_rev)
  have "dropWhile is_space str = []"
  proof (rule ccontr)
    assume ne: "dropWhile is_space str \<noteq> []"
    from hd_dropWhile [OF ne] all ne show False
      by (metis list.set_sel(1))
  qed
  then show "list_all is_space str"
    by (simp only: dropWhile_eq_Nil_conv list_all_iff)
next
  assume "list_all is_space str"
  then have a: "dropWhile is_space str = []"
    by (simp only: dropWhile_eq_Nil_conv list_all_iff)
  show "trim str = []"
    unfolding trim_def a by simp
qed

text \<open>
  C10.  A string that is empty or holds only whitespace is an invalid expression whatever
  the scope argument is: the call throws the \<open>TypeError\<close> and leaves the state as it was
  (nothing is tokenized, no binding is changed).
\<close>

theorem blank_expression_is_invalid:
  assumes "list_all is_space str"
  shows "Decimal_eval H st (JString str) scope
           = (Some (Inl (TypeError (js ''Decimal.eval: invalid expression: '' @ str))), st)"
  using assms by (simp add: Decimal_eval_def trim_empty_iff)

theorem blank_expression_is_invalid_witness:
  "Decimal_eval toy_host initial_state (JString []) (JObject [])
     = (Some (Inl (TypeError (js ''Decimal.eval: invalid expression: ''))), initial_state)
   \<and> Decimal_eval toy_host initial_state (JString (js ''   '')) Undefined
     = (Some (Inl (TypeError (js ''Decimal.eval: invalid expression:    ''))), initial_state)"
proof -
  have a: "list_all is_space []" by simp
  have b: "list_all is_space (js ''   '')" by (simp add: js_def is_space_def)
  from blank_expression_is_invalid [OF a, of toy_host initial_state "JObject []"]
    blank_expression_is_invalid [OF b, of toy_host initial_state Undefined]
  show ?thesis by (simp add: js_def)
qed

lemma tokenize_space:
  assumes "is_space c"
  shows "tokenize H S ids (c # cs) toks parsed = tokenize H S ids cs toks parsed"
  using assms by (subst (1 2) tokenize.simps) simp

lemmas tokenizer_simps =
  tokenize_step tokenize_space tokenize_end next_token_def match_number_def match_fraction_def
  match_exponent_def match_identifier_def match_operator_def two_char_op_def one_char_op_def
  char_simps js_def DEFAULT_TOKENIZER_def initial_state_def trim_def

lemma comparison_strings:
  "fst (Decimal_eval H initial_state (JString (js ''2 > 3'')) Undefined)
     = Some (Inr (Decimal_of_Decimal H (Decimal_of_number H
         (if d_gt H (Decimal_of_string H (js ''2'')) (Decimal_of_string H (js ''3'')) then 1 else 0))))"
  "fst (Decimal_eval H initial_state (JString (js ''2 && 3'')) Undefined)
     = Some (Inr (Decimal_of_Decimal H
         (if d_isZero H (Decimal_of_string H (js ''2''))
          then Decimal_of_string H (js ''2'') else Decimal_of_string H (js ''3''))))"
  "fst (Decimal_eval H initial_state (JString (js ''0 || 4'')) Undefined)
     = Some (Inr (Decimal_of_Decimal H
         (if d_isZero H (Decimal_of_string H (js ''0''))
          then Decimal_of_string H (js ''4'') else Decimal_of_string H (js ''0''))))"
  "fst (Decimal_eval H initial_state (JString (js ''0 && f()''))
          (JObject [(js ''f'', JFunction (\<lambda>args. None))]))
     = Some (Inl DecimalError)"
  "fst (Decimal_eval H initial_state (JString (js ''1 || f()''))
          (JObject [(js ''f'', JFunction (\<lambda>args. None))]))
     = Some (Inl DecimalError)"
  by (simp_all add: Decimal_eval_def tokenizer_simps run_tokens_def fuel_simps VALID_IDENTIFIER_def
      longestFirst_def)

text \<open>
  C8.  An infix operator always evaluates its right operand, with the binding power of
  the table, before it combines it with the left one; an error of the right operand is
  the result.  The comparisons give \<open>new Decimal(1)\<close> or \<open>new Decimal(0)\<close>; \<open>&&\<close> gives
  the left operand if it is zero and the right one otherwise, \<open>||\<close> the right operand if
  the left one is zero and the left one otherwise.  With a host in which 2 is not above
  3, 2 is not zero and 0 is zero, \<open>2 > 3\<close> is 0, \<open>2 && 3\<close> is 3 and \<open>0 || 4\<close> is 4; and
  \<open>0 && f()\<close> and \<open>1 || f()\<close> throw where the call of \<open>f\<close> throws.
\<close>

theorem comparison_and_logical_operators:
  assumes "rbp < op_lbp opr"
  shows "infix_loop H S (Suc n) rbp left (OpTok opr # ts)
           = (case evaluate H S n (infix_rbp opr) ts of
                None \<Rightarrow> None
              | Some (Inl err) \<Rightarrow> Some (Inl err)
              | Some (Inr (r, ts1)) \<Rightarrow> infix_loop H S n rbp (infix_apply H opr left r) ts1)
       \<and> fst (run_tokens H (st\<lparr>TOKENS := Some [NumTok a, OpTok opr, NumTok b, EndTok]\<rparr>))
           = Some (Inr (Decimal_of_Decimal H (infix_apply H opr a b)))
       \<and> infix_apply H Gt a b = Decimal_of_number H (if d_gt H a b then 1 else 0)
       \<and> infix_apply H Gte a b = Decimal_of_number H (if d_gte H a b then 1 else 0)
       \<and> infix_apply H Lt a b = Decimal_of_number H (if d_lt H a b then 1 else 0)
       \<and> infix_apply H Lte a b = Decimal_of_number H (if d_lte H a b then 1 else 0)
       \<and> infix_apply H Eq a b = Decimal_of_number H (if d_eq H a b then 1 else 0)
       \<and> infix_apply H Neq a b = Decimal_of_number H (if d_eq H a b then 0 else 1)
       \<and> infix_apply H And a b = (if d_isZero H a then a else b)
       \<and> infix_apply H Or a b = (if d_isZero H a then b else a)
       \<and> (\<not> d_gt H (Decimal_of_string H (js ''2'')) (Decimal_of_string H (js ''3'')) \<longrightarrow>
            fst (Decimal_eval H initial_state (JString (js ''2 > 3'')) Undefined)
              = Some (Inr (Decimal_of_Decimal H (Decimal_of_number H 0))))
       \<and> (\<not> d_isZero H (Decimal_of_string H (js ''2'')) \<longrightarrow>
            fst (Decimal_eval H initial_state (JString (js ''2 && 3'')) Undefined)
              = Some (Inr (Decimal_of_Decimal H (Decimal_of_string H (js ''3'')))))
       \<and> (d_isZero H (Decimal_of_string H (js ''0'')) \<longrightarrow>
            fst (Decimal_eval H initial_state (JString (js ''0 || 4'')) Undefined)
              = Some (Inr (Decimal_of_Decimal H (Decimal_of_string H (js ''4'')))))
       \<and> fst (Decimal_eval H initial_state (JString (js ''0 && f()''))
                 (JObject [(js ''f'', JFunction (\<lambda>args. None))])) = Some (Inl DecimalError)
       \<and> fst (Decimal_eval H initial_state (JString (js ''1 || f()''))
                 (JObject [(js ''f'', JFunction (\<lambda>args. None))])) = Some (Inl DecimalError)"
proof -
  have step: "infix_loop H S (Suc n) rbp left (OpTok opr # ts)
           = (case evaluate H S n (infix_rbp opr) ts of
                None \<Rightarrow> None
              | Some (Inl err) \<Rightarrow> Some (Inl err)
              | Some (Inr (r, ts1)) \<Rightarrow> infix_loop H S n rbp (infix_apply H opr left r) ts1)"
    using assms by simp
  have run: "fst (run_tokens H (st\<lparr>TOKENS := Some [NumTok a, OpTok opr, NumTok b, EndTok]\<rparr>))
           = Some (Inr (Decimal_of_Decimal H (infix_apply H opr a b)))"
    using assms by (cases opr) (simp_all add: run_tokens_def fuel_simps)
  from step run comparison_strings [of H] show ?thesis by simp
qed

theorem comparison_and_logical_operators_witness:
  "fst (Decimal_eval toy_host initial_state (JString (js ''2 > 3'')) Undefined) = Some (Inr (toy_dec 0))
   \<and> fst (Decimal_eval toy_host initial_state (JString (js ''2 && 3'')) Undefined) = Some (Inr (toy_dec 3))
   \<and> fst (Decimal_eval toy_host initial_state (JString (js ''0 || 4'')) Undefined) = Some (Inr (toy_dec 4))
   \<and> fst (run_tokens toy_host (initial_state\<lparr>TOKENS := Some [NumTok (toy_dec 5), OpTok Lte,
          NumTok (toy_dec 5), EndTok]\<rparr>)) = Some (Inr (toy_dec 1))"
proof -
  have h: "\<not> d_gt toy_host (Decimal_of_string toy_host (js ''2'')) (Decimal_of_string toy_host (js ''3''))"
    "\<not> d_isZero toy_host (Decimal_of_string toy_host (js ''2''))"
    "d_isZero toy_host (Decimal_of_string toy_host (js ''0''))"
    "Decimal_of_Decimal toy_host x = x"
    "Decimal_of_number toy_host = toy_dec"
    "Decimal_of_string toy_host (js ''3'') = toy_dec 3"
    "Decimal_of_string toy_host (js ''4'') = toy_dec 4"
    "infix_apply toy_host Lte (toy_dec 5) (toy_dec 5) = toy_dec 1" for x
    by (simp_all add: toy_host_def toy_digits_def toy_dec_def toy_val_def js_def is_digit_def)
  have "(0::nat) < op_lbp Lte" by simp
  from comparison_and_logical_operators [OF this, where H = toy_host and st = initial_state
      and a = "toy_dec 5" and b = "toy_dec 5"] h
  show ?thesis by simp
qed

subsection \<open>What an error leaves in the evaluator\<close>

lemma run_tokens_state: "snd (run_tokens H st) = st"
  by (simp add: run_tokens_def split: option.splits sum.splits prod.splits list.splits)

lemma update_entries_append:
  "update_entries (pre @ rest) S
     = (case update_entries pre S of
          (Some err, S1) \<Rightarrow> (Some err, S1)
        | (None, S1) \<Rightarrow> update_entries rest S1)"
proof (induction pre S rule: update_entries.induct)
  case (1 S)
  show ?case by simp
next
  case (2 ident val rest' S)
  then show ?case
    by (auto split: option.splits binding.splits js_val.splits prod.splits)
qed

lemma install_entries_append:
  "install_entries (pre @ rest) S
     = (case install_entries pre S of
          (Some err, S1) \<Rightarrow> (Some err, S1)
        | (None, S1) \<Rightarrow> install_entries rest S1)"
proof (induction pre S rule: install_entries.induct)
  case (1 S)
  show ?case by simp
next
  case (2 ident val rest' S)
  then show ?case
    by (auto split: option.splits js_val.splits prod.splits)
qed

lemma map_of_rev_Cons:
  "map_of (rev ((k0, v0) # rest)) k
     = (case map_of (rev rest) k of Some v \<Rightarrow> Some v | None \<Rightarrow> if k = k0 then Some v0 else None)"
  by (simp add: map_add_def split: option.splits)

lemma update_entries_bindings:
  "update_entries pre S = (None, S1) \<Longrightarrow>
     map_of S1 k = (case map_of (rev pre) k of None \<Rightarrow> map_of S k | Some val \<Rightarrow> binding_of val)"
proof (induction pre S rule: update_entries.induct)
  case (1 S)
  then show ?case by simp
next
  case (2 ident val rest S)
  show ?case
  proof (cases "map_of S ident")
    case None
    with "2.prems" show ?thesis by simp
  next
    case (Some b)
    show ?thesis
    proof (cases b)
      case (Function f)
      with Some "2.prems" obtain g where g: "val = JFunction g"
        and r: "update_entries rest (scope_put ident (Function g) S) = (None, S1)"
        by (cases val) auto
      from "2.IH"(1) [OF Some Function g r] show ?thesis
        unfolding map_of_rev_Cons
        by (auto simp: g map_of_scope_put split: option.splits)
    next
      case (Variable old)
      with Some "2.prems" obtain v where v: "val = JValue (Some v)"
        and r: "update_entries rest (scope_put ident (Variable v) S) = (None, S1)"
        by (cases val) (auto split: option.splits)
      from "2.IH"(2) [OF Some Variable v refl r] show ?thesis
        unfolding map_of_rev_Cons
        by (auto simp: v map_of_scope_put split: option.splits)
    qed
  qed
qed

lemma install_entries_bindings:
  "install_entries pre S = (None, S1) \<Longrightarrow>
     map_of S1 k = (case map_of (rev pre) k of None \<Rightarrow> map_of S k | Some val \<Rightarrow> binding_of val)"
proof (induction pre S rule: install_entries.induct)
  case (1 S)
  then show ?case by simp
next
  case (2 ident val rest S)
  from "2.prems" have valid: "VALID_IDENTIFIER ident" by (auto split: if_splits)
  show ?case
  proof (cases val)
    case (JFunction g)
    with "2.prems" valid have r: "install_entries rest (scope_put ident (Function g) S) = (None, S1)"
      by simp
    from "2.IH"(1) [OF _ JFunction r] valid show ?thesis
      unfolding map_of_rev_Cons
      by (auto simp: JFunction map_of_scope_put split: option.splits)
  next
    case (JValue ov)
    with "2.prems" valid obtain v where v: "ov = Some v"
      and r: "install_entries rest (scope_put ident (Variable v) S) = (None, S1)"
      by (cases ov) auto
    from "2.IH"(2) [OF _ JValue v r] valid show ?thesis
      unfolding map_of_rev_Cons
      by (auto simp: JValue v map_of_scope_put split: option.splits)
  qed
qed

lemma update_entries_first_failure:
  "fst (update_entries [(k, v)] S) = Some err \<Longrightarrow> update_entries ((k, v) # post) S = (Some err, S)"
  by (auto split: option.splits binding.splits js_val.splits)

lemma install_entries_first_failure:
  "fst (install_entries [(k, v)] S) = Some err \<Longrightarrow> install_entries ((k, v) # post) S = (Some err, S)"
  by (auto split: option.splits js_val.splits if_splits)

lemma installation_failure:
  assumes "\<not> list_all is_space str" and "install_entries pre [] = (None, S2)"
    and "fst (install_entries [(k, v)] S2) = Some err2"
  shows "Decimal_eval H st (JString str) (JObject (pre @ (k, v) # post))
        = (Some (Inl err2), st\<lparr>SCOPE := S2\<rparr>)"
proof -
  have "install_entries (pre @ (k, v) # post) [] = (Some err2, S2)"
    using assms(2) install_entries_first_failure [OF assms(3), of post]
    by (simp add: install_entries_append)
  with assms(1) show ?thesis
    by (simp add: Decimal_eval_def trim_empty_iff)
qed

lemma rebinding_failure:
  assumes "TOKENS st = Some toks'" and "update_entries pre (SCOPE st) = (None, S3)"
    and "fst (update_entries [(k, v)] S3) = Some err3"
  shows "Decimal_eval H st (JObject (pre @ (k, v) # post)) Undefined
        = (Some (Inl err3), st\<lparr>SCOPE := S3\<rparr>)"
proof -
  have "update_entries (pre @ (k, v) # post) (SCOPE st) = (Some err3, S3)"
    using assms(2) update_entries_first_failure [OF assms(3), of post]
    by (simp add: update_entries_append)
  with assms(1) show ?thesis
    by (simp add: Decimal_eval_def)
qed

lemma stored_after_installation:
  assumes "\<not> list_all is_space str" and "install_entries entries [] = (None, S1)"
    and "tokenize H S1 (if map fst S1 \<noteq> [] then longestFirst (map fst S1) else DEFAULT_TOKENIZER)
         (replace_pow str) [] [] = Inr (toks, parsed)"
  shows "snd (Decimal_eval H st (JString str) (JObject entries))
        = st\<lparr>SCOPE := S1,
             TOKENIZER := (if map fst S1 \<noteq> [] then longestFirst (map fst S1)
                           else DEFAULT_TOKENIZER),
             TOKENS := Some (toks @ [EndTok]), expression := Some parsed\<rparr>"
  using assms by (simp add: Decimal_eval_def trim_empty_iff run_tokens_state)

text \<open>
  C7 (as amended).  A call that throws for an invalid expression, an invalid scope or a
  missing expression to re-evaluate leaves the state untouched.  A scope installation
  that fails at an entry leaves the token list, the tokenizer and the parsed text
  untouched and stores as the scope exactly the entries before that one (the old scope
  is gone).  An unknown symbol sets the stored token list to \<open>null\<close> and keeps a scope
  installed by the same call.  Once the new expression is tokenized its tokens and
  parsed text are stored, with the scope installed by the call if there is one, whether
  or not the evaluation then throws.  A re-binding call never changes the token list;
  when it fails at an entry, the entries before that one stay re-bound (the last value
  given for a name) and every other name keeps its binding.
\<close>

theorem errors_and_stored_state:
  "(list_all is_space str \<longrightarrow>
      Decimal_eval H st (JString str) scope
        = (Some (Inl (TypeError (js ''Decimal.eval: invalid expression: '' @ str))), st))
   \<and> (expr = Undefined \<or> expr = Null \<or> expr = JOther str' \<longrightarrow>
      Decimal_eval H st expr scope
        = (Some (Inl (TypeError (js ''Decimal.eval: invalid expression: '' @ js_string_of expr))),
           st))
   \<and> (scope \<noteq> Undefined \<longrightarrow>
      Decimal_eval H st (JObject entries) scope
        = (Some (Inl (TypeError (js ''Decimal.eval: invalid expression: [object Object]''))), st))
   \<and> (\<not> list_all is_space str \<and> (scope = Null \<or> scope = JOther str' \<or> scope = JString str') \<longrightarrow>
      Decimal_eval H st (JString str) scope
        = (Some (Inl (TypeError (js ''Decimal.eval: invalid scope: '' @ js_string_of scope))), st))
   \<and> (TOKENS st = None \<longrightarrow>
      Decimal_eval H st (JObject entries) Undefined
        = (Some (Inl (Error (js ''Decimal.eval: no expression to re-evaluate''))), st))
   \<and> (\<not> list_all is_space str \<and> install_entries entries [] = (Some err, S1) \<longrightarrow>
      Decimal_eval H st (JString str) (JObject entries) = (Some (Inl err), st\<lparr>SCOPE := S1\<rparr>))
   \<and> (\<not> list_all is_space str \<and>
       tokenize H (SCOPE st) (TOKENIZER st) (replace_pow str) [] [] = Inl u \<longrightarrow>
      Decimal_eval H st (JString str) Undefined
        = (Some (Inl (SyntaxError (js ''Decimal.eval: unknown symbol: '' @ [u]))),
           st\<lparr>TOKENS := None\<rparr>))
   \<and> (\<not> list_all is_space str \<and> install_entries entries [] = (None, S1) \<and>
       tokenize H S1 (if map fst S1 \<noteq> [] then longestFirst (map fst S1) else DEFAULT_TOKENIZER)
         (replace_pow str) [] [] = Inl u \<longrightarrow>
      Decimal_eval H st (JString str) (JObject entries)
        = (Some (Inl (SyntaxError (js ''Decimal.eval: unknown symbol: '' @ [u]))),
           st\<lparr>SCOPE := S1,
              TOKENIZER := (if map fst S1 \<noteq> [] then longestFirst (map fst S1)
                            else DEFAULT_TOKENIZER),
              TOKENS := None\<rparr>))
   \<and> (\<not> list_all is_space str \<and>
       tokenize H (SCOPE st) (TOKENIZER st) (replace_pow str) [] [] = Inr (toks, parsed) \<longrightarrow>
      snd (Decimal_eval H st (JString str) Undefined)
        = st\<lparr>TOKENS := Some (toks @ [EndTok]), expression := Some parsed\<rparr>)
   \<and> (TOKENS st = Some toks' \<longrightarrow>
      snd (Decimal_eval H st (JObject entries) Undefined)
        = st\<lparr>SCOPE := snd (update_entries entries (SCOPE st))\<rparr>)
   \<and> (TOKENS st = Some toks' \<and> fst (update_entries entries (SCOPE st)) = Some err \<longrightarrow>
      fst (Decimal_eval H st (JObject entries) Undefined) = Some (Inl err))
   \<and> (\<not> list_all is_space str \<and> install_entries pre [] = (None, S2) \<and>
       fst (install_entries [(k, v)] S2) = Some err2 \<longrightarrow>
      Decimal_eval H st (JString str) (JObject (pre @ (k, v) # post))
        = (Some (Inl err2), st\<lparr>SCOPE := S2\<rparr>)
      \<and> (\<forall>k'. map_of S2 k'
            = (case map_of (rev pre) k' of None \<Rightarrow> None | Some val \<Rightarrow> binding_of val)))
   \<and> (\<not> list_all is_space str \<and> install_entries entries [] = (None, S1) \<and>
       tokenize H S1 (if map fst S1 \<noteq> [] then longestFirst (map fst S1) else DEFAULT_TOKENIZER)
         (replace_pow str) [] [] = Inr (toks, parsed) \<longrightarrow>
      snd (Decimal_eval H st (JString str) (JObject entries))
        = st\<lparr>SCOPE := S1,
             TOKENIZER := (if map fst S1 \<noteq> [] then longestFirst (map fst S1)
                           else DEFAULT_TOKENIZER),
             TOKENS := Some (toks @ [EndTok]), expression := Some parsed\<rparr>)
   \<and> (TOKENS st = Some toks' \<and> update_entries pre (SCOPE st) = (None, S3) \<and>
       fst (update_entries [(k, v)] S3) = Some err3 \<longrightarrow>
      Decimal_eval H st (JObject (pre @ (k, v) # post)) Undefined
        = (Some (Inl err3), st\<lparr>SCOPE := S3\<rparr>)
      \<and> (\<forall>k'. map_of S3 k'
            = (case map_of (rev pre) k' of None \<Rightarrow> map_of (SCOPE st) k'
               | Some val \<Rightarrow> binding_of val)))"
proof -
  have old: "(list_all is_space str \<longrightarrow>
      Decimal_eval H st (JString str) scope
        = (Some (Inl (TypeError (js ''Decimal.eval: invalid expression: '' @ str))), st))
   \<and> (expr = Undefined \<or> expr = Null \<or> expr = JOther str' \<longrightarrow>
      Decimal_eval H st expr scope
        = (Some (Inl (TypeError (js ''Decimal.eval: invalid expression: '' @ js_string_of expr))),
           st))
   \<and> (scope \<noteq> Undefined \<longrightarrow>
      Decimal_eval H st (JObject entries) scope
        = (Some (Inl (TypeError (js ''Decimal.eval: invalid expression: [object Object]''))), st))
   \<and> (\<not> list_all is_space str \<and> (scope = Null \<or> scope = JOther str' \<or> scope = JString str') \<longrightarrow>
      Decimal_eval H st (JString str) scope
        = (Some (Inl (TypeError (js ''Decimal.eval: invalid scope: '' @ js_string_of scope))), st))
   \<and> (TOKENS st = None \<longrightarrow>
      Decimal_eval H st (JObject entries) Undefined
        = (Some (Inl (Error (js ''Decimal.eval: no expression to re-evaluate''))), st))
   \<and> (\<not> list_all is_space str \<and> install_entries entries [] = (Some err, S1) \<longrightarrow>
      Decimal_eval H st (JString str) (JObject entries) = (Some (Inl err), st\<lparr>SCOPE := S1\<rparr>))
   \<and> (\<not> list_all is_space str \<and>
       tokenize H (SCOPE st) (TOKENIZER st) (replace_pow str) [] [] = Inl u \<longrightarrow>
      Decimal_eval H st (JString str) Undefined
        = (Some (Inl (SyntaxError (js ''Decimal.eval: unknown symbol: '' @ [u]))),
           st\<lparr>TOKENS := None\<rparr>))
   \<and> (\<not> list_all is_space str \<and> install_entries entries [] = (None, S1) \<and>
       tokenize H S1 (if map fst S1 \<noteq> [] then longestFirst (map fst S1) else DEFAULT_TOKENIZER)
         (replace_pow str) [] [] = Inl u \<longrightarrow>
      Decimal_eval H st (JString str) (JObject entries)
        = (Some (Inl (SyntaxError (js ''Decimal.eval: unknown symbol: '' @ [u]))),
           st\<lparr>SCOPE := S1,
              TOKENIZER := (if map fst S1 \<noteq> [] then longestFirst (map fst S1)
                            else DEFAULT_TOKENIZER),
              TOKENS := None\<rparr>))
   \<and> (\<not> list_all is_space str \<and>
       tokenize H (SCOPE st) (TOKENIZER st) (replace_pow str) [] [] = Inr (toks, parsed) \<longrightarrow>
      snd (Decimal_eval H st (JString str) Undefined)
        = st\<lparr>TOKENS := Some (toks @ [EndTok]), expression := Some parsed\<rparr>)
   \<and> (TOKENS st = Some toks' \<longrightarrow>
      snd (Decimal_eval H st (JObject entries) Undefined)
        = st\<lparr>SCOPE := snd (update_entries entries (SCOPE st))\<rparr>)
   \<and> (TOKENS st = Some toks' \<and> fst (update_entries entries (SCOPE st)) = Some err \<longrightarrow>
      fst (Decimal_eval H st (JObject entries) Undefined) = Some (Inl err))"
  proof (intro conjI impI)
    show "scope \<noteq> Undefined \<Longrightarrow> Decimal_eval H st (JObject entries) scope
          = (Some (Inl (TypeError (js ''Decimal.eval: invalid expression: [object Object]''))), st)"
      by (cases scope) (simp_all add: Decimal_eval_def js_def)
    show "TOKENS st = Some toks' \<Longrightarrow> snd (Decimal_eval H st (JObject entries) Undefined)
          = st\<lparr>SCOPE := snd (update_entries entries (SCOPE st))\<rparr>"
      by (cases "update_entries entries (SCOPE st)")
        (auto simp: Decimal_eval_def run_tokens_state split: option.splits)
    show "TOKENS st = Some toks' \<and> fst (update_entries entries (SCOPE st)) = Some err \<Longrightarrow>
        fst (Decimal_eval H st (JObject entries) Undefined) = Some (Inl err)"
      by (cases "update_entries entries (SCOPE st)") (auto simp: Decimal_eval_def)
  qed (auto simp: Decimal_eval_def trim_empty_iff run_tokens_state)
  have inst: "\<not> list_all is_space str \<and> install_entries pre [] = (None, S2) \<and>
       fst (install_entries [(k, v)] S2) = Some err2 \<longrightarrow>
      Decimal_eval H st (JString str) (JObject (pre @ (k, v) # post))
        = (Some (Inl err2), st\<lparr>SCOPE := S2\<rparr>)
      \<and> (\<forall>k'. map_of S2 k'
            = (case map_of (rev pre) k' of None \<Rightarrow> None | Some val \<Rightarrow> binding_of val))"
  proof (intro impI)
    assume "\<not> list_all is_space str \<and> install_entries pre [] = (None, S2) \<and>
       fst (install_entries [(k, v)] S2) = Some err2"
    then have h: "\<not> list_all is_space str" "install_entries pre [] = (None, S2)"
      "fst (install_entries [(k, v)] S2) = Some err2"
      by blast+
    show "Decimal_eval H st (JString str) (JObject (pre @ (k, v) # post))
        = (Some (Inl err2), st\<lparr>SCOPE := S2\<rparr>)
      \<and> (\<forall>k'. map_of S2 k'
            = (case map_of (rev pre) k' of None \<Rightarrow> None | Some val \<Rightarrow> binding_of val))"
      using installation_failure [OF h, of H st post] install_entries_bindings [OF h(2)]
      by (simp split: option.splits)
  qed
  have stored: "\<not> list_all is_space str \<and> install_entries entries [] = (None, S1) \<and>
       tokenize H S1 (if map fst S1 \<noteq> [] then longestFirst (map fst S1) else DEFAULT_TOKENIZER)
         (replace_pow str) [] [] = Inr (toks, parsed) \<longrightarrow>
      snd (Decimal_eval H st (JString str) (JObject entries))
        = st\<lparr>SCOPE := S1,
             TOKENIZER := (if map fst S1 \<noteq> [] then longestFirst (map fst S1)
                           else DEFAULT_TOKENIZER),
             TOKENS := Some (toks @ [EndTok]), expression := Some parsed\<rparr>"
    using stored_after_installation [of str entries S1 H toks parsed st] by blast
  have rebind: "TOKENS st = Some toks' \<and> update_entries pre (SCOPE st) = (None, S3) \<and>
       fst (update_entries [(k, v)] S3) = Some err3 \<longrightarrow>
      Decimal_eval H st (JObject (pre @ (k, v) # post)) Undefined
        = (Some (Inl err3), st\<lparr>SCOPE := S3\<rparr>)
      \<and> (\<forall>k'. map_of S3 k'
            = (case map_of (rev pre) k' of None \<Rightarrow> map_of (SCOPE st) k'
               | Some val \<Rightarrow> binding_of val))"
  proof (intro impI)
    assume "TOKENS st = Some toks' \<and> update_entries pre (SCOPE st) = (None, S3) \<and>
       fst (update_entries [(k, v)] S3) = Some err3"
    then have h: "TOKENS st = Some toks'" "update_entries pre (SCOPE st) = (None, S3)"
      "fst (update_entries [(k, v)] S3) = Some err3"
      by blast+
    show "Decimal_eval H st (JObject (pre @ (k, v) # post)) Undefined
        = (Some (Inl err3), st\<lparr>SCOPE := S3\<rparr>)
      \<and> (\<forall>k'. map_of S3 k'
            = (case map_of (rev pre) k' of None \<Rightarrow> map_of (SCOPE st) k'
               | Some val \<Rightarrow> binding_of val))"
      using rebinding_failure [OF h, of H post] update_entries_bindings [OF h(2)]
      by simp
  qed
  from old inst stored rebind show ?thesis
    by (elim conjE) (intro conjI; assumption)
qed

theorem errors_and_stored_state_witness:
  "Decimal_eval toy_host
      \<lparr>TOKENIZER = [js ''x''], TOKENS = Some [VarTok (js ''x''), EndTok],
         SCOPE = [(js ''x'', Variable (toy_dec 1))], expression = Some (js ''x'')\<rparr>
      (JObject [(js ''x'', JValue (Some (toy_dec 5))), (js ''z'', JValue (Some (toy_dec 1))),
                (js ''x'', JValue (Some (toy_dec 7)))]) Undefined
     = (Some (Inl (Error (js ''Decimal.eval: identifier not in scope: z''))),
        \<lparr>TOKENIZER = [js ''x''], TOKENS = Some [VarTok (js ''x''), EndTok],
           SCOPE = [(js ''x'', Variable (toy_dec 5))], expression = Some (js ''x'')\<rparr>)
   \<and> Decimal_eval toy_host initial_state (JString (js ''x''))
       (JObject [(js ''x'', JValue (Some (toy_dec 1))), (js ''2y'', JValue (Some (toy_dec 2)))])
     = (Some (Inl (SyntaxError (js ''Decimal.eval: invalid identifier: 2y''))),
        initial_state\<lparr>SCOPE := [(js ''x'', Variable (toy_dec 1))]\<rparr>)"
proof -
  let ?st = "\<lparr>TOKENIZER = [js ''x''], TOKENS = Some [VarTok (js ''x''), EndTok],
         SCOPE = [(js ''x'', Variable (toy_dec 1))], expression = Some (js ''x'')\<rparr>"
  have a: "TOKENS ?st = Some [VarTok (js ''x''), EndTok]" by simp
  have b: "update_entries [(js ''x'', JValue (Some (toy_dec 5)))] (SCOPE ?st)
      = (None, [(js ''x'', Variable (toy_dec 5))])"
    by simp
  have c: "fst (update_entries [(js ''z'', JValue (Some (toy_dec 1)))] [(js ''x'', Variable (toy_dec 5))])
      = Some (Error (js ''Decimal.eval: identifier not in scope: z''))"
    by (simp add: js_def)
  have d: "\<not> list_all is_space (js ''x'')" by (simp add: js_def is_space_def)
  have e: "install_entries [(js ''x'', JValue (Some (toy_dec 1)))] []
      = (None, [(js ''x'', Variable (toy_dec 1))])"
    by (simp add: VALID_IDENTIFIER_def js_def is_greek_def)
  have f: "fst (install_entries [(js ''2y'', JValue (Some (toy_dec 2)))] [(js ''x'', Variable (toy_dec 1))])
      = Some (SyntaxError (js ''Decimal.eval: invalid identifier: 2y''))"
    by (simp add: VALID_IDENTIFIER_def js_def is_greek_def)
  note t = errors_and_stored_state [where H = toy_host and toks' = "[VarTok (js ''x''), EndTok]"
      and pre = "[(js ''x'', JValue (Some (toy_dec 5)))]" and ?S3.0 = "[(js ''x'', Variable (toy_dec 5))]"
      and k = "js ''z''" and v = "JValue (Some (toy_dec 1))"
      and post = "[(js ''x'', JValue (Some (toy_dec 7)))]"
      and ?err3.0 = "Error (js ''Decimal.eval: identifier not in scope: z'')"
      and st = ?st]
  from t a b c have r: "Decimal_eval toy_host ?st
      (JObject ([(js ''x'', JValue (Some (toy_dec 5)))] @ (js ''z'', JValue (Some (toy_dec 1)))
                # [(js ''x'', JValue (Some (toy_dec 7)))])) Undefined
     = (Some (Inl (Error (js ''Decimal.eval: identifier not in scope: z''))),
        ?st\<lparr>SCOPE := [(js ''x'', Variable (toy_dec 5))]\<rparr>)"
    by blast
  note u = errors_and_stored_state [where H = toy_host and st = initial_state and str = "js ''x''"
      and pre = "[(js ''x'', JValue (Some (toy_dec 1)))]" and ?S2.0 = "[(js ''x'', Variable (toy_dec 1))]"
      and k = "js ''2y''" and v = "JValue (Some (toy_dec 2))" and post = "[]"
      and ?err2.0 = "SyntaxError (js ''Decimal.eval: invalid identifier: 2y'')"]
  from u d e f have s: "Decimal_eval toy_host initial_state (JString (js ''x''))
       (JObject ([(js ''x'', JValue (Some (toy_dec 1)))] @ (js ''2y'', JValue (Some (toy_dec 2))) # []))
     = (Some (Inl (SyntaxError (js ''Decimal.eval: invalid identifier: 2y''))),
        initial_state\<lparr>SCOPE := [(js ''x'', Variable (toy_dec 1))]\<rparr>)"
    by blast
  from r s show ?thesis by simp
qed

text \<open>
  After \<open>Decimal.eval('1')\<close> the tokens of \<open>1\<close> are stored.  \<open>Decimal.eval('#')\<close> then throws
  and leaves \<open>null\<close>; \<open>Decimal.eval('2 +')\<close> throws and leaves the tokens of \<open>2 +\<close>.
\<close>

theorem lexical_error_clears_tokens:
  "TOKENS (snd (Decimal_eval toy_host initial_state (JString (js ''1'')) Undefined))
     = Some [NumTok (toy_dec 1), EndTok]
   \<and> fst (Decimal_eval toy_host (snd (Decimal_eval toy_host initial_state (JString (js ''1'')) Undefined))
           (JString (js ''#'')) Undefined)
     = Some (Inl (SyntaxError (js ''Decimal.eval: unknown symbol: #'')))
   \<and> TOKENS (snd (Decimal_eval toy_host
           (snd (Decimal_eval toy_host initial_state (JString (js ''1'')) Undefined))
           (JString (js ''#'')) Undefined)) = None
   \<and> fst (Decimal_eval toy_host (snd (Decimal_eval toy_host initial_state (JString (js ''1'')) Undefined))
           (JString (js ''2 +'')) Undefined)
     = Some (Inl (SyntaxError (js ''Decimal.eval: unexpected end'')))
   \<and> TOKENS (snd (Decimal_eval toy_host
           (snd (Decimal_eval toy_host initial_state (JString (js ''1'')) Undefined))
           (JString (js ''2 +'')) Undefined)) = Some [NumTok (toy_dec 2), OpTok Plus, EndTok]"
  by (simp add: Decimal_eval_def tokenizer_simps run_tokens_def fuel_simps toy_host_def
      toy_digits_def)

end
